theory Spec2Isabelle
  imports Main
begin

section \<open>Strings\<close>

text \<open>
  The renderer works on JavaScript strings. A string is modelled by the bytes of its
  UTF-8 encoding, one \<^typ>\<open>char\<close> per byte. Every operation the renderer applies
  (splitting at \<open>/\<close>, \<open>#\<close> and \<open>?\<close>, tests for an ASCII prefix or suffix,
  concatenation, equality) acts on ASCII characters only, and an ASCII byte never occurs
  inside a multi-byte sequence, so these operations agree on both representations.
  Regular expressions with the flag \<open>i\<close> fold the ASCII letters only: without the flag
  \<open>u\<close> a character beyond ASCII never matches an ASCII letter.
\<close>

definition lower_char :: "char \<Rightarrow> char" where
  "lower_char c =
     (if 65 \<le> (of_char c :: nat) \<and> (of_char c :: nat) \<le> 90
      then char_of (of_char c + 32 :: nat) else c)"

definition lower :: "string \<Rightarrow> string" where
  "lower s = map lower_char s"

text \<open>\<open>starts_with_ci p s\<close>: the regular expression \<open>/^p/i\<close> for a lower-case literal \<open>p\<close>.\<close>

definition starts_with_ci :: "string \<Rightarrow> string \<Rightarrow> bool" where
  "starts_with_ci p s = (lower (take (length p) s) = p)"

text \<open>\<open>ends_with_ci p s\<close>: the regular expression \<open>/p$/i\<close> for a lower-case literal \<open>p\<close>.\<close>

definition ends_with_ci :: "string \<Rightarrow> string \<Rightarrow> bool" where
  "ends_with_ci p s =
     (length p \<le> length s \<and> lower (drop (length s - length p) s) = p)"

text \<open>\<open>String.prototype.split\<close> with a one-character separator, and \<open>Array.prototype.join\<close>.\<close>

fun split_on :: "char \<Rightarrow> string \<Rightarrow> string list" where
  "split_on c [] = [[]]"
| "split_on c (x # xs) =
     (if x = c then [] # split_on c xs
      else (case split_on c xs of
              [] \<Rightarrow> [[x]]
            | s # ss \<Rightarrow> (x # s) # ss))"

fun join_with :: "string \<Rightarrow> string list \<Rightarrow> string" where
  "join_with s [] = []"
| "join_with s [x] = x"
| "join_with s (x # y # ys) = x @ s @ join_with s (y # ys)"

text \<open>\<open>s.indexOf(c)\<close> for a character \<open>c\<close>: \<open>None\<close> stands for \<open>-1\<close>.\<close>

fun indexOf :: "string \<Rightarrow> char \<Rightarrow> nat option" where
  "indexOf [] c = None"
| "indexOf (x # xs) c =
     (if x = c then Some 0 else map_option Suc (indexOf xs c))"

section \<open>The path module (POSIX)\<close>

text \<open>
  The functions of Node's \<open>path\<close> module that the renderer calls, for POSIX paths
  (separator \<open>/\<close>). The process's working directory is a parameter \<open>cwd\<close>; it is an
  absolute path. A path is cut into its segments at the separators; \<open>normalizeSegs\<close>
  is the loop of \<open>normalizeString\<close>: empty segments and \<open>.\<close> are skipped, \<open>..\<close> removes
  the segment before it, or stays when there is none and the path is relative.
\<close>

fun normalizeSegs :: "bool \<Rightarrow> string list \<Rightarrow> string list \<Rightarrow> string list" where
  "normalizeSegs allowAboveRoot res [] = res"
| "normalizeSegs allowAboveRoot res (seg # segs) =
     (if seg = [] \<or> seg = ''.'' then normalizeSegs allowAboveRoot res segs
      else if seg = ''..'' then
        (if res \<noteq> [] \<and> last res \<noteq> ''..''
         then normalizeSegs allowAboveRoot (butlast res) segs
         else if allowAboveRoot
         then normalizeSegs allowAboveRoot (res @ [''..'']) segs
         else normalizeSegs allowAboveRoot res segs)
      else normalizeSegs allowAboveRoot (res @ [seg]) segs)"

definition normalizeString :: "string \<Rightarrow> bool \<Rightarrow> string" where
  "normalizeString path allowAboveRoot =
     join_with ''/'' (normalizeSegs allowAboveRoot [] (split_on CHR ''/'' path))"

definition isAbsolute :: "string \<Rightarrow> bool" where
  "isAbsolute path = (path \<noteq> [] \<and> hd path = CHR ''/'')"

definition path_normalize :: "string \<Rightarrow> string" where
  "path_normalize path =
     (if path = [] then ''.''
      else
        let trailingSeparator = (last path = CHR ''/'');
            p = normalizeString path (\<not> isAbsolute path)
        in if p = [] then
             (if isAbsolute path then ''/''
              else if trailingSeparator then ''./'' else ''.'')
           else
             (if isAbsolute path then ''/'' else [])
               @ p @ (if trailingSeparator then ''/'' else []))"

definition path_join :: "string list \<Rightarrow> string" where
  "path_join args =
     (let parts = filter (\<lambda>a. a \<noteq> []) args
      in if parts = [] then ''.'' else path_normalize (join_with ''/'' parts))"

text \<open>
  \<open>path.resolve\<close> reads its arguments from right to left, and then the working
  directory, until the path collected so far is absolute.
\<close>

fun resolveArgs :: "string list \<Rightarrow> string \<Rightarrow> string" where
  "resolveArgs [] resolvedPath = resolvedPath"
| "resolveArgs (p # ps) resolvedPath =
     (if p = [] then resolveArgs ps resolvedPath
      else if isAbsolute p then p @ ''/'' @ resolvedPath
      else resolveArgs ps (p @ ''/'' @ resolvedPath))"

definition path_resolve :: "string \<Rightarrow> string list \<Rightarrow> string" where
  "path_resolve cwd args =
     (let resolvedPath = resolveArgs (rev args @ [cwd]) [];
          p = normalizeString resolvedPath (\<not> isAbsolute resolvedPath)
      in if isAbsolute resolvedPath then CHR ''/'' # p
         else if p \<noteq> [] then p else ''.'')"

definition segments :: "string \<Rightarrow> string list" where
  "segments path = filter (\<lambda>s. s \<noteq> []) (split_on CHR ''/'' path)"

fun common_prefix_len :: "string list \<Rightarrow> string list \<Rightarrow> nat" where
  "common_prefix_len (x # xs) (y # ys) =
     (if x = y then Suc (common_prefix_len xs ys) else 0)"
| "common_prefix_len xs ys = 0"

text \<open>
  \<open>path.relative\<close>: both paths are resolved; the result climbs out of what is left of
  \<open>from\<close> after the common leading segments and descends into what is left of \<open>to\<close>.
\<close>

definition path_relative :: "string \<Rightarrow> string \<Rightarrow> string \<Rightarrow> string" where
  "path_relative cwd from to =
     (if from = to then []
      else
        let f = path_resolve cwd [from]; t = path_resolve cwd [to]
        in if f = t then []
           else
             let fs = segments f; ts = segments t; n = common_prefix_len fs ts
             in join_with ''/'' (replicate (length fs - n) ''..'' @ drop n ts))"

definition strip_trailing_seps :: "string \<Rightarrow> string" where
  "strip_trailing_seps s = rev (dropWhile (\<lambda>c. c = CHR ''/'') (rev s))"

text \<open>
  \<open>path.dirname\<close> looks for the last separator at an index of at least 1, behind the
  trailing separators, and returns what is before it.
\<close>

definition path_dirname :: "string \<Rightarrow> string" where
  "path_dirname path =
     (if path = [] then ''.''
      else
        let stripped = strip_trailing_seps (tl path)
        in if CHR ''/'' \<notin> set stripped then
             (if isAbsolute path then ''/'' else ''.'')
           else
             let end = length (dropWhile (\<lambda>c. c \<noteq> CHR ''/'') (rev stripped))
             in if isAbsolute path \<and> end = 1 then ''//'' else take end path)"

definition path_basename :: "string \<Rightarrow> string" where
  "path_basename path =
     rev (takeWhile (\<lambda>c. c \<noteq> CHR ''/'') (rev (strip_trailing_seps path)))"

section \<open>Output locations\<close>

text \<open>
  \<open>REPO_ROOT\<close> is the working directory of the build, a parameter \<open>root\<close> of every
  function below; \<open>OUTPUT_ROOT\<close> is the directory \<open>_site\<close> in it.
\<close>

definition OUTPUT_ROOT :: "string \<Rightarrow> string" where
  "OUTPUT_ROOT root = path_join [root, ''_site'']"

text \<open>\<open>s.replace(/\.md$/i, "")\<close>\<close>

definition is_md :: "string \<Rightarrow> bool" where
  "is_md s = ends_with_ci ''.md'' s"

definition strip_md :: "string \<Rightarrow> string" where
  "strip_md s = (if is_md s then take (length s - 3) s else s)"

definition computeOutputHtmlPath :: "string \<Rightarrow> string \<Rightarrow> string \<Rightarrow> string" where
  "computeOutputHtmlPath root mdPath homeMdBasename =
     (let rel = path_relative root root mdPath;
          base = path_basename rel;
          dir = path_dirname rel
      in if dir = ''.'' \<and> base = homeMdBasename
         then path_join [OUTPUT_ROOT root, ''index.html'']
         else
           let name = strip_md base
           in path_join [OUTPUT_ROOT root,
                         if dir = ''.'' then name else path_join [dir, name],
                         ''index.html''])"

definition toRelativeHref :: "string \<Rightarrow> string \<Rightarrow> string \<Rightarrow> string" where
  "toRelativeHref root fromDir toFile =
     (let rel = join_with ''/'' (split_on CHR ''/'' (path_relative root fromDir toFile))
      in if rel = [] then ''index.html'' else rel)"

text \<open>
  \<open>toExtensionlessPath\<close>: the first replacement removes a match of
  \<open>/(?:^|\/)index(?:\.html)?$/i\<close>, which is either the whole string or a suffix that
  starts at a separator; the second removes a suffix \<open>.html\<close>.
\<close>

definition strip_index :: "string \<Rightarrow> string" where
  "strip_index href =
     (if lower href = ''index'' \<or> lower href = ''index.html'' then []
      else if ends_with_ci ''/index.html'' href then take (length href - 11) href
      else if ends_with_ci ''/index'' href then take (length href - 6) href
      else href)"

definition strip_html :: "string \<Rightarrow> string" where
  "strip_html s = (if ends_with_ci ''.html'' s then take (length s - 5) s else s)"

definition toExtensionlessPath :: "string \<Rightarrow> string" where
  "toExtensionlessPath href = strip_html (strip_index href)"

section \<open>Rewriting references\<close>

datatype error = URIError | Error string | ENOENT

text \<open>
  \<open>decodeURI\<close>, as the ECMAScript specification defines it. An escape \<open>%XX\<close> of an
  ASCII character is replaced by the character, unless it is one of the reserved
  characters, which stay escaped. An escape of a byte beyond ASCII starts a sequence of
  as many escapes as its leading one bits say; the bytes must be the UTF-8 encoding of a
  code point, which is the result (here: these bytes). Anything else throws \<open>URIError\<close>.
\<close>

definition hexval :: "char \<Rightarrow> nat option" where
  "hexval c =
     (let n = (of_char c :: nat)
      in if 48 \<le> n \<and> n \<le> 57 then Some (n - 48)
         else if 65 \<le> n \<and> n \<le> 70 then Some (n - 55)
         else if 97 \<le> n \<and> n \<le> 102 then Some (n - 87)
         else None)"

fun escape_byte :: "string \<Rightarrow> nat option" where
  "escape_byte (p # h1 # h2 # rest) =
     (if p = CHR ''%'' then
        (case hexval h1 of
           None \<Rightarrow> None
         | Some a \<Rightarrow> (case hexval h2 of None \<Rightarrow> None | Some b \<Rightarrow> Some (16 * a + b)))
      else None)"
| "escape_byte s = None"

definition leading_ones :: "nat \<Rightarrow> nat" where
  "leading_ones b =
     (if b < 128 then 0 else if b < 192 then 1 else if b < 224 then 2
      else if b < 240 then 3 else if b < 248 then 4 else 5)"

fun read_octets :: "nat \<Rightarrow> string \<Rightarrow> (nat list \<times> string) option" where
  "read_octets 0 s = Some ([], s)"
| "read_octets (Suc n) s =
     (case escape_byte s of
        None \<Rightarrow> None
      | Some b \<Rightarrow>
          (case read_octets n (drop 3 s) of
             None \<Rightarrow> None
           | Some (bs, rest) \<Rightarrow> Some (b # bs, rest)))"

definition continuation :: "nat \<Rightarrow> bool" where
  "continuation b = (128 \<le> b \<and> b \<le> 191)"

text \<open>The well-formed UTF-8 byte sequences of two, three and four bytes.\<close>

fun valid_utf8 :: "nat list \<Rightarrow> bool" where
  "valid_utf8 [b0, b1] = (194 \<le> b0 \<and> b0 \<le> 223 \<and> continuation b1)"
| "valid_utf8 [b0, b1, b2] =
     (continuation b2 \<and>
      (b0 = 224 \<and> 160 \<le> b1 \<and> b1 \<le> 191 \<or>
       225 \<le> b0 \<and> b0 \<le> 236 \<and> continuation b1 \<or>
       b0 = 237 \<and> 128 \<le> b1 \<and> b1 \<le> 159 \<or>
       238 \<le> b0 \<and> b0 \<le> 239 \<and> continuation b1))"
| "valid_utf8 [b0, b1, b2, b3] =
     (continuation b2 \<and> continuation b3 \<and>
      (b0 = 240 \<and> 144 \<le> b1 \<and> b1 \<le> 191 \<or>
       241 \<le> b0 \<and> b0 \<le> 243 \<and> continuation b1 \<or>
       b0 = 244 \<and> 128 \<le> b1 \<and> b1 \<le> 143))"
| "valid_utf8 bs = False"

definition uriReserved :: "string" where
  "uriReserved = '';/?:@&=+$,#''"

lemma read_octets_length:
  "read_octets n s = Some (bs, rest) \<Longrightarrow> length rest \<le> length s"
proof (induction n arbitrary: s bs rest)
  case 0
  then show ?case by simp
next
  case (Suc n)
  from Suc.prems obtain bs' where
    "read_octets n (drop 3 s) = Some (bs', rest)"
    by (auto split: option.splits)
  from Suc.IH [OF this] show ?case by simp
qed

function decodeURI :: "string \<Rightarrow> error + string" where
  "decodeURI [] = Inr []"
| "decodeURI (c # cs) =
     (if c \<noteq> CHR ''%'' then
        (case decodeURI cs of Inl e \<Rightarrow> Inl e | Inr r \<Rightarrow> Inr (c # r))
      else
        (case escape_byte (c # cs) of
           None \<Rightarrow> Inl URIError
         | Some b \<Rightarrow>
             if leading_ones b = 0 then
               (case decodeURI (drop 2 cs) of
                  Inl e \<Rightarrow> Inl e
                | Inr r \<Rightarrow>
                    Inr ((if char_of b \<in> set uriReserved then take 3 (c # cs)
                          else [char_of b]) @ r))
             else if leading_ones b = 1 \<or> leading_ones b > 4 then Inl URIError
             else
               (case read_octets (leading_ones b - 1) (drop 2 cs) of
                  None \<Rightarrow> Inl URIError
                | Some (bs, rest) \<Rightarrow>
                    if valid_utf8 (b # bs) then
                      (case decodeURI rest of
                         Inl e \<Rightarrow> Inl e
                       | Inr r \<Rightarrow> Inr (map char_of (b # bs) @ r))
                    else Inl URIError)))"
  by pat_completeness auto
termination
proof (relation "measure length")
  show "wf (measure length)" by simp
next
  fix c :: char and cs
  show "(cs, c # cs) \<in> measure length" by simp
next
  fix c :: char and cs
  show "(drop 2 cs, c # cs) \<in> measure length" by simp
next
  fix c :: char and cs x2 x2a x y
  assume "read_octets (leading_ones x2 - 1) (drop 2 cs) = Some x2a" "(x, y) = x2a"
  then have "read_octets (leading_ones x2 - 1) (drop 2 cs) = Some (x, y)" by simp
  from read_octets_length [OF this] show "(y, c # cs) \<in> measure length" by simp
qed

text \<open>The three tests that leave a reference alone.\<close>

definition is_absolute_url :: "string \<Rightarrow> bool" where
  "is_absolute_url raw =
     (starts_with_ci ''//'' raw \<or> starts_with_ci ''http://'' raw
      \<or> starts_with_ci ''https://'' raw)"

definition is_mail_or_tel :: "string \<Rightarrow> bool" where
  "is_mail_or_tel raw = (starts_with_ci ''mailto:'' raw \<or> starts_with_ci ''tel:'' raw)"

definition starts_with_hash :: "string \<Rightarrow> bool" where
  "starts_with_hash raw = (raw \<noteq> [] \<and> hd raw = CHR ''#'')"

text \<open>\<open>split_at s c\<close>: what is before the first \<open>c\<close> of \<open>s\<close>, and the rest from it on.\<close>

definition split_at :: "string \<Rightarrow> char \<Rightarrow> string \<times> string" where
  "split_at s c =
     (case indexOf s c of None \<Rightarrow> (s, []) | Some i \<Rightarrow> (take i s, drop i s))"

text \<open>
  \<open>processAttr\<close> of \<open>rewriteLinksHtml\<close>, on the value \<open>raw\<close> of an attribute of the page
  rendered from \<open>sourceMdPath\<close>. The result is the value of the attribute afterwards,
  which is \<open>raw\<close> itself where the source returns before it sets the attribute.
\<close>

definition sourceOutDir :: "string \<Rightarrow> string \<Rightarrow> string \<Rightarrow> string" where
  "sourceOutDir root sourceMdPath homeMdBasename =
     path_dirname (computeOutputHtmlPath root sourceMdPath homeMdBasename)"

definition processAttr :: "string \<Rightarrow> string \<Rightarrow> string \<Rightarrow> string \<Rightarrow> error + string" where
  "processAttr root sourceMdPath homeMdBasename raw =
     (if raw = [] then Inr raw
      else if is_absolute_url raw then Inr raw
      else if is_mail_or_tel raw then Inr raw
      else if starts_with_hash raw then Inr raw
      else
        let hash = snd (split_at raw CHR ''#'');
            url0 = fst (split_at raw CHR ''#'');
            query = snd (split_at url0 CHR ''?'');
            url = fst (split_at url0 CHR ''?'')
        in case decodeURI url of
             Inl e \<Rightarrow> Inl e
           | Inr decoded \<Rightarrow>
               let resolvedTarget =
                     path_resolve root [path_dirname sourceMdPath, decoded];
                   targetOutputAbs =
                     (if is_md url
                      then computeOutputHtmlPath root resolvedTarget homeMdBasename
                      else path_join [OUTPUT_ROOT root,
                                      path_relative root root resolvedTarget]);
                   relativeHref =
                     toRelativeHref root
                       (sourceOutDir root sourceMdPath homeMdBasename) targetOutputAbs;
                   relativeHref' =
                     (if is_md url then
                        (if toExtensionlessPath relativeHref = [] then ''.''
                         else toExtensionlessPath relativeHref)
                      else relativeHref)
               in Inr (relativeHref' @ query @ hash))"

section \<open>White space and lines\<close>

text \<open>
  The characters that \<open>\s\<close> and \<open>trim\<close> take for white space (the white space and the
  line terminators of ECMAScript), each by its UTF-8 bytes: TAB, LF, VT, FF, CR, SP,
  U+00A0, U+1680, U+2000 to U+200A, U+2028, U+2029, U+202F, U+205F, U+3000, U+FEFF.
\<close>

definition ws_chars :: "string list" where
  "ws_chars =
     [[CHR 0x09], [CHR 0x0A], [CHR 0x0B], [CHR 0x0C], [CHR 0x0D], [CHR 0x20],
      [CHR 0xC2, CHR 0xA0], [CHR 0xE1, CHR 0x9A, CHR 0x80],
      [CHR 0xE2, CHR 0x80, CHR 0x80], [CHR 0xE2, CHR 0x80, CHR 0x81],
      [CHR 0xE2, CHR 0x80, CHR 0x82], [CHR 0xE2, CHR 0x80, CHR 0x83],
      [CHR 0xE2, CHR 0x80, CHR 0x84], [CHR 0xE2, CHR 0x80, CHR 0x85],
      [CHR 0xE2, CHR 0x80, CHR 0x86], [CHR 0xE2, CHR 0x80, CHR 0x87],
      [CHR 0xE2, CHR 0x80, CHR 0x88], [CHR 0xE2, CHR 0x80, CHR 0x89],
      [CHR 0xE2, CHR 0x80, CHR 0x8A], [CHR 0xE2, CHR 0x80, CHR 0xA8],
      [CHR 0xE2, CHR 0x80, CHR 0xA9], [CHR 0xE2, CHR 0x80, CHR 0xAF],
      [CHR 0xE2, CHR 0x81, CHR 0x9F], [CHR 0xE3, CHR 0x80, CHR 0x80],
      [CHR 0xEF, CHR 0xBB, CHR 0xBF]]"

text \<open>The line terminators: LF, CR, U+2028, U+2029. The regular expression \<open>.\<close> matches
  every character but these.\<close>

definition lt_chars :: "string list" where
  "lt_chars =
     [[CHR 0x0A], [CHR 0x0D], [CHR 0xE2, CHR 0x80, CHR 0xA8], [CHR 0xE2, CHR 0x80, CHR 0xA9]]"

text \<open>The number of bytes of the character of the table at the head of \<open>s\<close>, or 0.\<close>

definition head_len :: "string list \<Rightarrow> string \<Rightarrow> nat" where
  "head_len table s =
     (case find (\<lambda>w. take (length w) s = w) table of None \<Rightarrow> 0 | Some w \<Rightarrow> length w)"

text \<open>The same for the character at the end of \<open>s\<close>.\<close>

definition end_len :: "string list \<Rightarrow> string \<Rightarrow> nat" where
  "end_len table s =
     (case find (\<lambda>w. length w \<le> length s \<and> drop (length s - length w) s = w) table of
        None \<Rightarrow> 0 | Some w \<Rightarrow> length w)"

lemma find_ws_chars_nonempty:
  "find P ws_chars = Some w \<Longrightarrow> 0 < length w"
  by (drule find_Some_iff [THEN iffD1]) (auto simp: ws_chars_def nth_Cons' split: if_splits)

lemma head_len_ws_le: "head_len ws_chars s \<le> length s"
proof (cases "find (\<lambda>w. take (length w) s = w) ws_chars")
  case None
  then show ?thesis by (simp add: head_len_def)
next
  case (Some w)
  then have "take (length w) s = w"
    by (auto simp: find_Some_iff)
  then have "length (take (length w) s) = length w" by simp
  then have "length w \<le> length s" by (simp add: min_def split: if_splits)
  with Some show ?thesis by (simp add: head_len_def)
qed

lemma head_len_ws_drop:
  "0 < head_len ws_chars s \<Longrightarrow> length s - head_len ws_chars s < length s"
  using head_len_ws_le [of s] by arith

lemma end_len_ws_take:
  "0 < end_len ws_chars s \<Longrightarrow> length s - end_len ws_chars s < length s"
proof -
  assume a: "0 < end_len ws_chars s"
  then obtain w where
    w: "find (\<lambda>w. length w \<le> length s \<and> drop (length s - length w) s = w) ws_chars = Some w"
    by (auto simp: end_len_def split: option.splits)
  then have "length w \<le> length s" by (auto simp: find_Some_iff)
  moreover have "0 < length w" using w by (rule find_ws_chars_nonempty)
  moreover have "end_len ws_chars s = length w" using w by (simp add: end_len_def)
  ultimately show ?thesis by arith
qed

text \<open>\<open>ws_split s\<close>: the characters of the longest run of white space at the head of
  \<open>s\<close>; \<open>skip_ws s\<close>: what follows the run.\<close>

function ws_split :: "string \<Rightarrow> string list" where
  "ws_split s =
     (if head_len ws_chars s = 0 then []
      else take (head_len ws_chars s) s # ws_split (drop (head_len ws_chars s) s))"
  by pat_completeness auto
termination
  by (relation "measure length") (auto simp: head_len_ws_drop)

definition skip_ws :: "string \<Rightarrow> string" where
  "skip_ws s = drop (length (concat (ws_split s))) s"

text \<open>\<open>\s{0,3}\<close>, greedy: at most \<open>n\<close> characters of white space are skipped.\<close>

fun skip_ws_upto :: "nat \<Rightarrow> string \<Rightarrow> string" where
  "skip_ws_upto 0 s = s"
| "skip_ws_upto (Suc n) s =
     (if head_len ws_chars s = 0 then s
      else skip_ws_upto n (drop (head_len ws_chars s) s))"

function trim_end :: "string \<Rightarrow> string" where
  "trim_end s =
     (if end_len ws_chars s = 0 then s
      else trim_end (take (length s - end_len ws_chars s) s))"
  by pat_completeness auto
termination
  by (relation "measure length") (auto simp: end_len_ws_take)

definition trim :: "string \<Rightarrow> string" where
  "trim s = trim_end (skip_ws s)"

text \<open>\<open>.*\<close> from the head of \<open>s\<close>: the characters before the first line terminator.\<close>

fun take_line :: "string \<Rightarrow> string" where
  "take_line [] = []"
| "take_line (c # cs) =
     (if head_len lt_chars (c # cs) \<noteq> 0 then [] else c # take_line cs)"

section \<open>Headings and frontmatter\<close>

text \<open>
  The match of \<open>/^\s{0,3}#\s+(.+)$/m\<close> that starts at the head of \<open>s\<close>, a start of a
  line: its group 1. At most three characters of white space (which may be line
  terminators) stand before the \<open>#\<close>. The white space behind the \<open>#\<close> is left as
  late as a character follows that is no line terminator: the next other character, or,
  when the white space runs to the end of the text, the last character of the run but
  its first that is no line terminator. The group runs from there to the end of the line.
\<close>

definition h1_here :: "string \<Rightarrow> string option" where
  "h1_here s =
     (case skip_ws_upto 3 s of
        [] \<Rightarrow> None
      | c # t \<Rightarrow>
          if c \<noteq> CHR ''#'' \<or> ws_split t = [] then None
          else if skip_ws t \<noteq> [] then Some (take_line (skip_ws t))
          else
            (case filter (\<lambda>w. w \<notin> set lt_chars) (tl (ws_split t)) of
               [] \<Rightarrow> None
             | w # ws \<Rightarrow> Some (last (w # ws))))"

text \<open>
  A position is the start of a line when it is the start of the text or follows a line
  terminator; \<open>prev\<close> is the text before the position, reversed.
\<close>

definition line_start :: "string \<Rightarrow> bool" where
  "line_start prev = (prev = [] \<or> end_len lt_chars (rev prev) \<noteq> 0)"

text \<open>The first match of the expression in the text, from left to right.\<close>

fun h1_search :: "string \<Rightarrow> string \<Rightarrow> string option" where
  "h1_search prev [] = (if line_start prev then h1_here [] else None)"
| "h1_search prev (c # cs) =
     (case (if line_start prev then h1_here (c # cs) else None) of
        Some g \<Rightarrow> Some g
      | None \<Rightarrow> h1_search (c # prev) cs)"

definition parseFirstH1 :: "string \<Rightarrow> error + string" where
  "parseFirstH1 md =
     (case h1_search [] md of
        None \<Rightarrow> Inl (Error ''No H1 header found'')
      | Some g \<Rightarrow> Inr (trim g))"

text \<open>
  The values a YAML document loads to. The loader is a library: it is a parameter
  \<open>yaml_load\<close> of the functions that call it, and \<open>None\<close> is its exception.
\<close>

datatype yaml =
    YNull
  | YBool bool
  | YNumber int
  | YString string
  | YSeq "yaml list"
  | YMapping "(string \<times> yaml) list"

definition falsy :: "yaml \<Rightarrow> bool" where
  "falsy v = (v = YNull \<or> v = YBool False \<or> v = YNumber 0 \<or> v = YString [])"

text \<open>\<open>s.indexOf(p)\<close> for a string \<open>p\<close>.\<close>

fun find_sub :: "string \<Rightarrow> string \<Rightarrow> nat option" where
  "find_sub p [] = (if p = [] then Some 0 else None)"
| "find_sub p (c # cs) =
     (if take (length p) (c # cs) = p then Some 0
      else map_option Suc (find_sub p cs))"

text \<open>
  The match of \<open>/^---\s*\n([\s\S]*?)\n---\s*\n?/\<close>: group 1 and the length of the whole
  match. After the first three dashes the white space is left at one of its line feeds,
  the last one first; the group then runs to the first line feed with three dashes
  behind it, and the match takes all white space after these.
  \<open>nl_offsets\<close> are the offsets behind the line feeds of a run of white space.
\<close>

fun nl_offsets :: "nat \<Rightarrow> string list \<Rightarrow> nat list" where
  "nl_offsets off [] = []"
| "nl_offsets off (w # ws) =
     (if w = [CHR 0x0A] then [off + 1] else []) @ nl_offsets (off + length w) ws"

definition frontmatter_from :: "string \<Rightarrow> nat \<Rightarrow> (string \<times> nat) option" where
  "frontmatter_from md start =
     (case find_sub (CHR 0x0A # ''---'') (drop start md) of
        None \<Rightarrow> None
      | Some j \<Rightarrow>
          Some (take j (drop start md),
                start + j + 4
                  + length (concat (ws_split (drop (start + j + 4) md)))))"

definition match_frontmatter :: "string \<Rightarrow> (string \<times> nat) option" where
  "match_frontmatter md =
     (if take 3 md \<noteq> ''---'' then None
      else
        case filter (\<lambda>r. r \<noteq> None)
               (map (frontmatter_from md) (rev (nl_offsets 3 (ws_split (drop 3 md))))) of
          [] \<Rightarrow> None
        | r # rs \<Rightarrow> r)"

record frontmatter =
  attributes :: yaml
  body :: string

definition parseYamlFrontmatter :: "(string \<Rightarrow> yaml option) \<Rightarrow> string \<Rightarrow> frontmatter" where
  "parseYamlFrontmatter yaml_load md =
     (case match_frontmatter md of
        None \<Rightarrow> \<lparr>attributes = YMapping [], body = md\<rparr>
      | Some (block, len) \<Rightarrow>
          \<lparr>attributes =
             (case yaml_load block of
                None \<Rightarrow> YMapping []
              | Some v \<Rightarrow> if falsy v then YMapping [] else v),
           body = drop len md\<rparr>)"

text \<open>
  The title and the description of a page, as \<open>renderPage\<close> computes them from the
  frontmatter, the first heading of the body and the title of the site.
  \<open>string_attr v k\<close> is \<open>v[k]\<close> when that is a string.
\<close>

definition string_attr :: "yaml \<Rightarrow> string \<Rightarrow> string option" where
  "string_attr v k =
     (case v of
        YMapping kvs \<Rightarrow>
          (case map_of kvs k of Some (YString s) \<Rightarrow> Some s | _ \<Rightarrow> None)
      | _ \<Rightarrow> None)"

definition pageFallback :: "string \<Rightarrow> string \<Rightarrow> string" where
  "pageFallback site_title markdownContent =
     (let firstH1 = (case h1_search [] markdownContent of None \<Rightarrow> [] | Some g \<Rightarrow> trim g)
      in if firstH1 \<noteq> [] then firstH1 else site_title)"

definition pageMeta :: "string \<Rightarrow> frontmatter \<Rightarrow> string \<Rightarrow> string" where
  "pageMeta site_title fm k =
     (case string_attr (attributes fm) k of
        None \<Rightarrow> pageFallback site_title (body fm)
      | Some s \<Rightarrow> if trim s \<noteq> [] then trim s else pageFallback site_title (body fm))"

section \<open>Navigation\<close>

text \<open>
  The file system is a parameter \<open>fs\<close>: what is at an absolute path, if anything.
  \<open>readFile\<close> fails on a path that does not exist or is a directory.
\<close>

datatype fs_node = File string | Dir

definition readFile :: "(string \<Rightarrow> fs_node option) \<Rightarrow> string \<Rightarrow> error + string" where
  "readFile fs p =
     (case fs p of
        None \<Rightarrow> Inl ENOENT
      | Some Dir \<Rightarrow> Inl (Error ''EISDIR'')
      | Some (File content) \<Rightarrow> Inr content)"

datatype nav_item =
    External string string
  | Internal string string string

text \<open>
  \<open>External href title\<close> and \<open>Internal mdPath title outPath\<close>. An entry of the
  configured navigation is a key with a title, which is \<open>None\<close> for a bare key.
\<close>

definition is_external :: "string \<Rightarrow> bool" where
  "is_external k = (is_absolute_url k \<or> is_mail_or_tel k)"

definition truthy :: "string option \<Rightarrow> bool" where
  "truthy t = (t \<noteq> None \<and> t \<noteq> Some [])"

definition resolveMdNavItem ::
  "string \<Rightarrow> (string \<Rightarrow> fs_node option) \<Rightarrow> string \<Rightarrow> string \<Rightarrow> string option \<Rightarrow> nav_item" where
  "resolveMdNavItem root fs homeMdBasename mdPathAbs providedTitle =
     (let title =
            (if truthy providedTitle then the providedTitle
             else
               case (case readFile fs mdPathAbs of
                       Inl e \<Rightarrow> Inl e
                     | Inr raw \<Rightarrow> parseFirstH1 raw) of
                 Inr t \<Rightarrow> t
               | Inl e \<Rightarrow>
                   if path_basename mdPathAbs = homeMdBasename
                      \<and> path_dirname mdPathAbs = root
                   then ''Home''
                   else strip_md (path_basename mdPathAbs))
      in Internal mdPathAbs title (computeOutputHtmlPath root mdPathAbs homeMdBasename))"

definition resolveDirKey ::
  "string \<Rightarrow> (string \<Rightarrow> fs_node option) \<Rightarrow> string \<Rightarrow> string \<Rightarrow> string option
     \<Rightarrow> nav_item option" where
  "resolveDirKey root fs homeMdBasename dirKey providedTitle =
     (let dirAbs = path_join [root, dirKey]
      in case fs dirAbs of
           None \<Rightarrow> None
         | Some (File content) \<Rightarrow> None
         | Some Dir \<Rightarrow>
             let readme = path_join [dirAbs, ''README.md''];
                 index = path_join [dirAbs, ''index.md'']
             in if fs readme \<noteq> None
                then Some (resolveMdNavItem root fs homeMdBasename readme providedTitle)
                else if fs index \<noteq> None
                then Some (resolveMdNavItem root fs homeMdBasename index providedTitle)
                else None)"

definition buildNavItem ::
  "string \<Rightarrow> (string \<Rightarrow> fs_node option) \<Rightarrow> string \<Rightarrow> string \<times> string option \<Rightarrow> nav_item" where
  "buildNavItem root fs homeMdBasename entry =
     (let key = fst entry; providedTitle = snd entry
      in if is_external key
         then External key (if truthy providedTitle then the providedTitle else key)
         else if is_md key
         then resolveMdNavItem root fs homeMdBasename (path_join [root, key]) providedTitle
         else
           case resolveDirKey root fs homeMdBasename key providedTitle of
             Some dirResolved \<Rightarrow> dirResolved
           | None \<Rightarrow> External key (if truthy providedTitle then the providedTitle else key))"

definition buildNavItems ::
  "string \<Rightarrow> (string \<Rightarrow> fs_node option) \<Rightarrow> string \<Rightarrow> (string \<times> string option) list
     \<Rightarrow> nav_item list" where
  "buildNavItems root fs homeMdBasename entries =
     map (buildNavItem root fs homeMdBasename) entries"

text \<open>
  \<open>buildNavHtml\<close>: the \<open>href\<close> of the link of an item, and the \<open>href\<close> of the title of
  the site, on a page whose output directory is \<open>currentOutDir\<close>.
\<close>

fun escapeHtml :: "string \<Rightarrow> string" where
  "escapeHtml [] = []"
| "escapeHtml (c # cs) =
     (if c = CHR ''&'' then ''&amp;''
      else if c = CHR ''<'' then ''&lt;''
      else if c = CHR ''>'' then ''&gt;''
      else if c = CHR 0x22 then ''&quot;''
      else if c = CHR 0x27 then ''&#039;''
      else [c]) @ escapeHtml cs"

definition navItemHref :: "string \<Rightarrow> string \<Rightarrow> nav_item \<Rightarrow> string" where
  "navItemHref root currentOutDir item =
     (case item of
        External href title \<Rightarrow> escapeHtml href
      | Internal mdPath title outPath \<Rightarrow>
          toExtensionlessPath (toRelativeHref root currentOutDir outPath))"

definition homeHref :: "string \<Rightarrow> string \<Rightarrow> string \<Rightarrow> string" where
  "homeHref root currentOutDir homeOutPathAbsolute =
     (if toExtensionlessPath (toRelativeHref root currentOutDir homeOutPathAbsolute) = []
      then ''.''
      else toExtensionlessPath (toRelativeHref root currentOutDir homeOutPathAbsolute))"

section \<open>Notions used in the statements\<close>

text \<open>
  A segment of a normalized path: not empty, without a separator, and neither \<open>.\<close> nor
  \<open>..\<close>. \<open>abs_of segs\<close> is the absolute path with these segments, and \<open>clean_abs p\<close>
  says that \<open>p\<close> is such a path, as the working directory of a process always is.
\<close>

definition normal_seg :: "string \<Rightarrow> bool" where
  "normal_seg s = (s \<noteq> [] \<and> CHR ''/'' \<notin> set s \<and> s \<noteq> ''.'' \<and> s \<noteq> ''..'')"

definition abs_of :: "string list \<Rightarrow> string" where
  "abs_of segs = (if segs = [] then ''/'' else concat (map ((#) CHR ''/'') segs))"

definition clean_abs :: "string \<Rightarrow> bool" where
  "clean_abs p = (list_all normal_seg (segments p) \<and> p = abs_of (segments p))"

text \<open>
  The three parts that \<open>processAttr\<close> cuts a reference into, and the test that it does
  not return early.
\<close>

definition url_of :: "string \<Rightarrow> string" where
  "url_of raw = fst (split_at (fst (split_at raw CHR ''#'')) CHR ''?'')"

definition query_of :: "string \<Rightarrow> string" where
  "query_of raw = snd (split_at (fst (split_at raw CHR ''#'')) CHR ''?'')"

definition hash_of :: "string \<Rightarrow> string" where
  "hash_of raw = snd (split_at raw CHR ''#'')"

definition is_local :: "string \<Rightarrow> bool" where
  "is_local raw = (raw \<noteq> [] \<and> \<not> is_absolute_url raw \<and> \<not> is_mail_or_tel raw \<and> \<not> starts_with_hash raw)"


definition demo_yaml_load :: "string \<Rightarrow> yaml option" where
  "demo_yaml_load s =
     (if s = ''title: ['' then None
      else if s = ''title: Hello'' then Some (YMapping [(''title'', YString ''Hello'')])
      else Some YNull)"

section \<open>The path module on normalized paths\<close>

lemma split_on_not_Nil: "split_on c s \<noteq> []"
  by (induction s) (auto split: list.splits)

lemma split_on_append: "split_on c (a @ c # b) = split_on c a @ split_on c b"
proof (induction a)
  case Nil
  show ?case by simp
next
  case (Cons x a)
  obtain s ss where sa: "split_on c a = s # ss"
    using split_on_not_Nil [of c a] by (cases "split_on c a") auto
  show ?case using Cons sa by simp
qed

lemma split_on_no_sep: "c \<notin> set s \<Longrightarrow> split_on c s = [s]"
  by (induction s) auto

lemma split_on_sep_free: "s \<in> set (split_on c x) \<Longrightarrow> c \<notin> set s"
proof (induction x arbitrary: s)
  case Nil
  then show ?case by simp
next
  case (Cons y x)
  obtain t ts where sa: "split_on c x = t # ts"
    using split_on_not_Nil [of c x] by (cases "split_on c x") auto
  show ?case
  proof (cases "y = c")
    case True
    with Cons show ?thesis by auto
  next
    case False
    with Cons.prems sa have "s = y # t \<or> s \<in> set ts" by simp
    then show ?thesis
    proof
      assume "s = y # t"
      moreover have "c \<notin> set t" using Cons.IH [of t] sa by simp
      ultimately show ?thesis using False by auto
    next
      assume "s \<in> set ts"
      then show ?thesis using Cons.IH [of s] sa by simp
    qed
  qed
qed

lemma join_split: "join_with [c] (split_on c s) = s"
proof (induction s)
  case Nil
  show ?case by simp
next
  case (Cons x s)
  obtain t ts where sa: "split_on c s = t # ts"
    using split_on_not_Nil [of c s] by (cases "split_on c s") auto
  show ?case
  proof (cases "x = c")
    case True
    with Cons sa show ?thesis by simp
  next
    case False
    with Cons sa show ?thesis by (cases ts) auto
  qed
qed

lemma join_with_Cons: "ys \<noteq> [] \<Longrightarrow> join_with s (x # ys) = x @ s @ join_with s ys"
  by (cases ys) auto

lemma join_with_append:
  "xs \<noteq> [] \<Longrightarrow> ys \<noteq> [] \<Longrightarrow> join_with s (xs @ ys) = join_with s xs @ s @ join_with s ys"
proof (induction xs)
  case Nil
  then show ?case by simp
next
  case (Cons x xs)
  show ?case
  proof (cases "xs = []")
    case True
    with Cons.prems show ?thesis by (simp add: join_with_Cons)
  next
    case False
    with Cons show ?thesis by (simp add: join_with_Cons)
  qed
qed

lemma split_join:
  "segs \<noteq> [] \<Longrightarrow> \<forall>s \<in> set segs. c \<notin> set s \<Longrightarrow> split_on c (join_with [c] segs) = segs"
proof (induction segs)
  case Nil
  then show ?case by simp
next
  case (Cons x xs)
  show ?case
  proof (cases "xs = []")
    case True
    with Cons.prems show ?thesis by (simp add: split_on_no_sep)
  next
    case False
    then have "join_with [c] (x # xs) = x @ c # join_with [c] xs"
      by (simp add: join_with_Cons)
    with Cons False show ?thesis by (simp add: split_on_append split_on_no_sep)
  qed
qed

lemma abs_of_join: "segs \<noteq> [] \<Longrightarrow> abs_of segs = CHR ''/'' # join_with ''/'' segs"
proof (induction segs)
  case Nil
  then show ?case by simp
next
  case (Cons x xs)
  show ?case
  proof (cases "xs = []")
    case True
    then show ?thesis by (simp add: abs_of_def)
  next
    case False
    with Cons show ?thesis by (simp add: abs_of_def join_with_Cons)
  qed
qed

lemma normal_seg_sep_free: "list_all normal_seg segs \<Longrightarrow> \<forall>s \<in> set segs. CHR ''/'' \<notin> set s"
  by (simp add: list_all_iff normal_seg_def)

lemma split_abs_of:
  "list_all normal_seg segs \<Longrightarrow> split_on CHR ''/'' (abs_of segs) = [] # (if segs = [] then [[]] else segs)"
proof (cases "segs = []")
  case True
  then show ?thesis by (simp add: abs_of_def)
next
  case False
  assume n: "list_all normal_seg segs"
  have "split_on CHR ''/'' (abs_of segs) = split_on CHR ''/'' ([] @ CHR ''/'' # join_with ''/'' segs)"
    using False by (simp add: abs_of_join)
  also have "\<dots> = [] # split_on CHR ''/'' (join_with ''/'' segs)"
    by (simp only: split_on_append) simp
  also have "split_on CHR ''/'' (join_with ''/'' segs) = segs"
    using split_join [OF False, of "CHR ''/''"] normal_seg_sep_free [OF n] by simp
  finally show ?thesis using False by simp
qed

lemma segments_abs_of: "list_all normal_seg segs \<Longrightarrow> segments (abs_of segs) = segs"
  by (auto simp: segments_def split_abs_of list_all_iff normal_seg_def filter_id_conv)

lemma clean_abs_iff: "clean_abs p \<longleftrightarrow> (\<exists>rs. list_all normal_seg rs \<and> p = abs_of rs)"
  by (auto simp: clean_abs_def segments_abs_of)

lemma normalizeSegs_append:
  "normalizeSegs a res (xs @ ys) = normalizeSegs a (normalizeSegs a res xs) ys"
  by (induction xs arbitrary: res) auto

lemma normalizeSegs_normal:
  "list_all normal_seg xs \<Longrightarrow> normalizeSegs a res xs = res @ xs"
  by (induction xs arbitrary: res) (auto simp: normal_seg_def)

lemma normalizeSegs_keeps_normal:
  "list_all normal_seg res \<Longrightarrow> \<forall>s \<in> set xs. CHR ''/'' \<notin> set s \<Longrightarrow>
   list_all normal_seg (normalizeSegs False res xs)"
proof (induction xs arbitrary: res)
  case Nil
  then show ?case by simp
next
  case (Cons x xs)
  have b: "list_all normal_seg (butlast res)"
    using Cons.prems(1) by (auto simp: list_all_iff dest: in_set_butlastD)
  have r: "\<forall>s \<in> set xs. CHR ''/'' \<notin> set s" using Cons.prems(2) by simp
  show ?case
  proof (cases "x = [] \<or> x = ''.''")
    case True
    then show ?thesis using Cons.IH [OF Cons.prems(1) r] by auto
  next
    case False
    show ?thesis
    proof (cases "x = ''..''")
      case True
      then show ?thesis
        using Cons.IH [OF Cons.prems(1) r] Cons.IH [OF b r] by simp
    next
      case nd: False
      have "normal_seg x" using False nd Cons.prems(2) by (simp add: normal_seg_def)
      then have "list_all normal_seg (res @ [x])" using Cons.prems(1) by simp
      from Cons.IH [OF this r] show ?thesis using False nd by simp
    qed
  qed
qed

lemma normalizeSegs_abs:
  "list_all normal_seg xs \<Longrightarrow> normalizeSegs a res (split_on CHR ''/'' (abs_of xs)) = res @ xs"
  by (simp add: split_abs_of normalizeSegs_normal)

lemma normalizeString_abs_slash:
  "list_all normal_seg xs \<Longrightarrow>
   normalizeString (abs_of xs @ CHR ''/'' # y) a = join_with ''/'' (normalizeSegs a xs (split_on CHR ''/'' y))"
  by (simp add: normalizeString_def split_on_append normalizeSegs_append normalizeSegs_abs)

lemma isAbsolute_abs_of [simp]: "isAbsolute (abs_of xs)"
  by (cases xs) (auto simp: isAbsolute_def abs_of_def)

lemma abs_of_not_Nil [simp]: "abs_of xs \<noteq> []"
  by (cases xs) (auto simp: abs_of_def)

lemma abs_of_join': "CHR ''/'' # join_with ''/'' xs = abs_of xs"
  by (cases "xs = []") (simp_all add: abs_of_join, simp add: abs_of_def)

lemma path_resolve_abs:
  "list_all normal_seg xs \<Longrightarrow> path_resolve cwd [abs_of xs] = abs_of xs"
proof -
  assume n: "list_all normal_seg xs"
  have r: "resolveArgs (rev [abs_of xs] @ [cwd]) [] = abs_of xs @ CHR ''/'' # []"
    by simp
  have a: "isAbsolute (abs_of xs @ CHR ''/'' # [])"
    using isAbsolute_abs_of [of xs] abs_of_not_Nil [of xs] by (simp add: isAbsolute_def)
  have "normalizeString (abs_of xs @ CHR ''/'' # []) False = join_with ''/'' xs"
    using normalizeString_abs_slash [OF n, of "[]" False] by simp
  then show ?thesis
    unfolding path_resolve_def r Let_def using a by (simp add: abs_of_join')
qed

lemma abs_of_inj:
  "list_all normal_seg xs \<Longrightarrow> list_all normal_seg ys \<Longrightarrow> abs_of xs = abs_of ys \<Longrightarrow> xs = ys"
  by (metis segments_abs_of)

lemma path_relative_abs:
  assumes "list_all normal_seg xs" "list_all normal_seg ys"
  shows "path_relative cwd (abs_of xs) (abs_of ys) =
         join_with ''/'' (replicate (length xs - common_prefix_len xs ys) ''..''
                          @ drop (common_prefix_len xs ys) ys)"
proof (cases "xs = ys")
  case True
  have "common_prefix_len ys ys = length ys" by (induction ys) auto
  with True show ?thesis by (simp add: path_relative_def)
next
  case False
  then have "abs_of xs \<noteq> abs_of ys" using abs_of_inj [OF assms] by blast
  then show ?thesis
    by (simp add: path_relative_def path_resolve_abs assms segments_abs_of Let_def)
qed

lemma strip_trailing_seps_id:
  "s \<noteq> [] \<Longrightarrow> last s \<noteq> CHR ''/'' \<Longrightarrow> strip_trailing_seps s = s"
proof -
  assume a: "s \<noteq> []" "last s \<noteq> CHR ''/''"
  then have "s = butlast s @ [last s]" by simp
  then have "rev s = last s # rev (butlast s)"
    by (metis rev.simps(2) rev_rev_ident rev_swap)
  then have "dropWhile (\<lambda>c. c = CHR ''/'') (rev s) = rev s"
    using a(2) by (simp only: dropWhile.simps) simp
  then show ?thesis by (simp add: strip_trailing_seps_def)
qed

lemma normal_seg_props:
  "normal_seg x \<Longrightarrow> x \<noteq> [] \<and> last x \<noteq> CHR ''/'' \<and> CHR ''/'' \<notin> set x"
proof -
  assume n: "normal_seg x"
  then have "x \<noteq> []" "CHR ''/'' \<notin> set x" by (auto simp: normal_seg_def)
  moreover from this have "last x \<in> set x" by simp
  ultimately show ?thesis by metis
qed


lemma join_with_snoc:
  "xs \<noteq> [] \<Longrightarrow> join_with s (xs @ [x]) = join_with s xs @ s @ x"
  using join_with_append [of xs "[x]" s] by simp

lemma join_normal_not_Nil:
  "xs \<noteq> [] \<Longrightarrow> list_all normal_seg xs \<Longrightarrow> join_with ''/'' xs \<noteq> []"
proof -
  assume a: "xs \<noteq> []" "list_all normal_seg xs"
  then obtain y ys where xs: "xs = y # ys" by (cases xs) auto
  then have "y \<noteq> []" using a(2) by (simp add: normal_seg_def)
  then show ?thesis unfolding xs by (cases ys) auto
qed

lemma dirname_tail:
  assumes "normal_seg x" "p \<noteq> []"
  shows "path_dirname (p @ CHR ''/'' # x) = (if length p = 1 \<and> isAbsolute p then ''//'' else p)"
proof -
  let ?path = "p @ CHR ''/'' # x"
  obtain c q where p: "p = c # q" using assms(2) by (cases p) auto
  have x: "x \<noteq> []" "last x \<noteq> CHR ''/''" "CHR ''/'' \<notin> set x"
    using normal_seg_props [OF assms(1)] by auto
  have tl: "tl ?path = q @ CHR ''/'' # x" using p by simp
  have "last (q @ CHR ''/'' # x) = last x" using x by simp
  then have st: "strip_trailing_seps (tl ?path) = q @ CHR ''/'' # x"
    using strip_trailing_seps_id [of "q @ CHR ''/'' # x"] x tl by simp
  have dw: "dropWhile (\<lambda>c. c \<noteq> CHR ''/'') (rev (q @ CHR ''/'' # x)) = CHR ''/'' # rev q"
  proof -
    have "dropWhile (\<lambda>c. c \<noteq> CHR ''/'') (rev x) = []" using x(3) by auto
    then show ?thesis by (simp add: dropWhile_append)
  qed
  have "path_dirname ?path =
        (if isAbsolute ?path \<and> Suc (length q) = 1 then ''//'' else take (Suc (length q)) ?path)"
    unfolding path_dirname_def st Let_def dw by simp
  moreover have "take (Suc (length q)) ?path = p" using p by simp
  moreover have "isAbsolute ?path = isAbsolute p" using p by (simp add: isAbsolute_def)
  ultimately show ?thesis using p by auto
qed

lemma path_dirname_abs:
  assumes "list_all normal_seg xs" "normal_seg x"
  shows "path_dirname (abs_of (xs @ [x])) = abs_of xs"
proof (cases "xs = []")
  case True
  have x: "x \<noteq> []" "last x \<noteq> CHR ''/''" "CHR ''/'' \<notin> set x"
    using normal_seg_props [OF assms(2)] by auto
  have "strip_trailing_seps x = x" using strip_trailing_seps_id x by simp
  then show ?thesis using True x
    by (simp add: abs_of_def path_dirname_def isAbsolute_def)
next
  case False
  have a: "abs_of (xs @ [x]) = abs_of xs @ CHR ''/'' # x"
    using False by (simp add: abs_of_def)
  obtain y ys where "xs = y # ys" using False by (cases xs) auto
  moreover have "y \<noteq> []" using assms(1) calculation by (simp add: normal_seg_def)
  ultimately have "length (abs_of xs) \<noteq> 1" by (cases y) (auto simp: abs_of_def)
  then show ?thesis
    unfolding a using dirname_tail [OF assms(2), of "abs_of xs"] by simp
qed

lemma path_dirname_rel:
  assumes "list_all normal_seg ds" "normal_seg b"
  shows "path_dirname (join_with ''/'' (ds @ [b])) = (if ds = [] then ''.'' else join_with ''/'' ds)"
proof (cases "ds = []")
  case True
  have x: "b \<noteq> []" "last b \<noteq> CHR ''/''" "CHR ''/'' \<notin> set b"
    using normal_seg_props [OF assms(2)] by auto
  obtain c q where b: "b = c # q" using x(1) by (cases b) auto
  have "CHR ''/'' \<notin> set (strip_trailing_seps q)"
    using x(3) b by (auto simp: strip_trailing_seps_def dest: set_dropWhileD)
  moreover have "\<not> isAbsolute b" using x(3) b by (auto simp: isAbsolute_def)
  ultimately show ?thesis using True b
    by (simp add: path_dirname_def)
next
  case False
  have j: "join_with ''/'' (ds @ [b]) = join_with ''/'' ds @ CHR ''/'' # b"
    using False by (simp add: join_with_snoc)
  have ne: "join_with ''/'' ds \<noteq> []" using join_normal_not_Nil [OF False assms(1)] .
  obtain y ys where ds: "ds = y # ys" using False by (cases ds) auto
  then have "normal_seg y" using assms(1) by simp
  then obtain c q where y: "y = c # q" "c \<noteq> CHR ''/''" by (cases y) (auto simp: normal_seg_def)
  have "hd (join_with ''/'' ds) = c" using ds y by (cases ys) auto
  then have "\<not> isAbsolute (join_with ''/'' ds)" using y by (simp add: isAbsolute_def)
  then show ?thesis
    unfolding j using dirname_tail [OF assms(2) ne] False by simp
qed

lemma takeWhile_rev_sep_free:
  "CHR ''/'' \<notin> set b \<Longrightarrow> takeWhile (\<lambda>c. c \<noteq> CHR ''/'') (rev b) = rev b"
  by (rule takeWhile_eq_all_conv [THEN iffD2]) auto



lemma path_basename_single:
  assumes "normal_seg b"
  shows "path_basename b = b"
proof -
  have x: "b \<noteq> []" "last b \<noteq> CHR ''/''" "CHR ''/'' \<notin> set b"
    using normal_seg_props [OF assms] by auto
  have st: "strip_trailing_seps b = b" using strip_trailing_seps_id x by simp
  show ?thesis unfolding path_basename_def st
    by (simp only: takeWhile_rev_sep_free [OF x(3)] rev_rev_ident)
qed


lemma normal_index [simp]: "normal_seg ''index.html''" "normal_seg ''_site''"
  by (simp_all add: normal_seg_def)


lemma path_normalize_abs:
  assumes "list_all normal_seg xs" "normal_seg z"
  shows "path_normalize (abs_of xs @ CHR ''/'' # w @ z) =
         abs_of (normalizeSegs False xs (split_on CHR ''/'' (w @ z)))"
proof -
  let ?path = "abs_of xs @ CHR ''/'' # w @ z"
  have z: "z \<noteq> []" "last z \<noteq> CHR ''/''" "CHR ''/'' \<notin> set z"
    using normal_seg_props [OF assms(2)] by auto
  have abs: "isAbsolute ?path"
    using isAbsolute_abs_of [of xs] abs_of_not_Nil [of xs] by (simp add: isAbsolute_def)
  have lst: "last ?path \<noteq> CHR ''/''" using z by simp
  have ns: "normalizeString ?path False = join_with ''/'' (normalizeSegs False xs (split_on CHR ''/'' (w @ z)))"
    using normalizeString_abs_slash [OF assms(1)] by simp
  have ne: "?path \<noteq> []" by simp
  define p where "p = join_with ''/'' (normalizeSegs False xs (split_on CHR ''/'' (w @ z)))"
  have "path_normalize ?path =
        (if p = [] then ''/'' else ''/'' @ p @ [])"
    by (simp only: path_normalize_def Let_def ns abs lst ne p_def [symmetric] if_True if_False not_True_eq_False)
  also have "\<dots> = CHR ''/'' # p" by simp
  finally show ?thesis by (simp only: p_def abs_of_join')
qed

lemma split_on_snoc_seg:
  assumes "CHR ''/'' \<notin> set z"
  shows "split_on CHR ''/'' (x @ CHR ''/'' # z) = split_on CHR ''/'' x @ [z]"
  using assms by (simp add: split_on_append split_on_no_sep)

lemma path_join_index:
  assumes "list_all normal_seg xs"
  shows "path_join [abs_of xs, x, ''index.html''] =
         abs_of (normalizeSegs False xs (split_on CHR ''/'' x) @ [''index.html''])"
proof (cases "x = []")
  case True
  have "path_join [abs_of xs, x, ''index.html''] = path_normalize (abs_of xs @ CHR ''/'' # [] @ ''index.html'')"
    using True by (simp add: path_join_def)
  also have "\<dots> = abs_of (normalizeSegs False xs (split_on CHR ''/'' ([] @ ''index.html'')))"
    by (rule path_normalize_abs [OF assms]) simp
  also have "split_on CHR ''/'' ([] @ ''index.html'') = [''index.html'']" by simp
  also have "normalizeSegs False xs [''index.html''] = xs @ [''index.html'']"
    by (rule normalizeSegs_normal) simp
  finally show ?thesis using True by simp
next
  case False
  have "path_join [abs_of xs, x, ''index.html''] =
        path_normalize (abs_of xs @ CHR ''/'' # (x @ ''/'') @ ''index.html'')"
    using False by (simp add: path_join_def)
  also have "\<dots> = abs_of (normalizeSegs False xs (split_on CHR ''/'' ((x @ ''/'') @ ''index.html'')))"
    by (rule path_normalize_abs [OF assms]) simp
  also have "split_on CHR ''/'' ((x @ ''/'') @ ''index.html'') = split_on CHR ''/'' x @ [''index.html'']"
    using split_on_snoc_seg [of "''index.html''" x] by simp
  also have "normalizeSegs False xs (split_on CHR ''/'' x @ [''index.html'']) =
             normalizeSegs False xs (split_on CHR ''/'' x) @ [''index.html'']"
    by (simp only: normalizeSegs_append) (rule normalizeSegs_normal, simp)
  finally show ?thesis .
qed

lemma path_join_abs_seg:
  assumes "list_all normal_seg xs" "normal_seg z"
  shows "path_join [abs_of xs, z] = abs_of (xs @ [z])"
proof -
  have z: "z \<noteq> []" "CHR ''/'' \<notin> set z" using normal_seg_props [OF assms(2)] by auto
  have "path_join [abs_of xs, z] = path_normalize (abs_of xs @ CHR ''/'' # [] @ z)"
    using z by (simp add: path_join_def)
  also have "\<dots> = abs_of (normalizeSegs False xs (split_on CHR ''/'' ([] @ z)))"
    by (rule path_normalize_abs [OF assms])
  also have "split_on CHR ''/'' ([] @ z) = [z]" using z by (simp add: split_on_no_sep)
  also have "normalizeSegs False xs [z] = xs @ [z]"
    by (rule normalizeSegs_normal) (simp add: assms(2))
  finally show ?thesis .
qed

lemma OUTPUT_ROOT_abs:
  "list_all normal_seg rs \<Longrightarrow> OUTPUT_ROOT (abs_of rs) = abs_of (rs @ [''_site''])"
  by (simp add: OUTPUT_ROOT_def path_join_abs_seg)

lemma split_on_sep_free_all: "\<forall>s \<in> set (split_on c x). c \<notin> set s"
  using split_on_sep_free by blast

lemma computeOutputHtmlPath_shape:
  assumes "list_all normal_seg rs"
  shows "\<exists>zs. list_all normal_seg zs \<and>
              computeOutputHtmlPath (abs_of rs) mdPath home = abs_of (zs @ [''index.html''])"
proof -
  have o: "list_all normal_seg (rs @ [''_site''])" using assms by simp
  have home: "path_join [abs_of (rs @ [''_site'']), ''index.html''] = abs_of ((rs @ [''_site'']) @ [''index.html''])"
    by (rule path_join_abs_seg [OF o]) simp
  have other: "\<And>x. path_join [abs_of (rs @ [''_site'']), x, ''index.html''] =
        abs_of (normalizeSegs False (rs @ [''_site'']) (split_on CHR ''/'' x) @ [''index.html''])"
    by (rule path_join_index [OF o])
  have k: "\<And>x. list_all normal_seg (normalizeSegs False (rs @ [''_site'']) (split_on CHR ''/'' x))"
    by (rule normalizeSegs_keeps_normal [OF o split_on_sep_free_all])
  define rel where "rel = path_relative (abs_of rs) (abs_of rs) mdPath"
  show ?thesis
  proof (cases "path_dirname rel = ''.'' \<and> path_basename rel = home")
    case True
    then have "computeOutputHtmlPath (abs_of rs) mdPath home =
               abs_of ((rs @ [''_site'']) @ [''index.html''])"
      by (simp add: computeOutputHtmlPath_def Let_def OUTPUT_ROOT_abs [OF assms] home
            rel_def [symmetric])
    with o show ?thesis by blast
  next
    case False
    define x where "x = (if path_dirname rel = ''.'' then strip_md (path_basename rel)
                         else path_join [path_dirname rel, strip_md (path_basename rel)])"
    from False have "computeOutputHtmlPath (abs_of rs) mdPath home =
               abs_of (normalizeSegs False (rs @ [''_site'']) (split_on CHR ''/'' x) @ [''index.html''])"
      by (simp only: computeOutputHtmlPath_def Let_def OUTPUT_ROOT_abs [OF assms] other
            rel_def [symmetric] x_def [symmetric] if_False)
    with k [of x] show ?thesis by blast
  qed
qed

lemma common_prefix_len_append: "common_prefix_len xs (xs @ ys) = length xs"
  by (induction xs) auto

lemma common_prefix_len_le: "common_prefix_len xs ys \<le> length xs \<and> common_prefix_len xs ys \<le> length ys"
  by (induction xs ys rule: common_prefix_len.induct) auto

lemma sourceOutDir_shape:
  assumes "list_all normal_seg rs"
  shows "\<exists>zs. list_all normal_seg zs \<and>
              computeOutputHtmlPath (abs_of rs) mdPath home = abs_of (zs @ [''index.html'']) \<and>
              sourceOutDir (abs_of rs) mdPath home = abs_of zs"
proof -
  obtain zs where zs: "list_all normal_seg zs"
    "computeOutputHtmlPath (abs_of rs) mdPath home = abs_of (zs @ [''index.html''])"
    using computeOutputHtmlPath_shape [OF assms] by blast
  then show ?thesis
    by (auto simp: sourceOutDir_def path_dirname_abs)
qed








section \<open>Rewriting: the cases of processAttr\<close>

lemma processAttr_local:
  "is_local raw \<Longrightarrow> decodeURI (url_of raw) = Inr d \<Longrightarrow>
   processAttr root src home raw =
     Inr ((if is_md (url_of raw)
           then (if toExtensionlessPath (toRelativeHref root (sourceOutDir root src home)
                      (computeOutputHtmlPath root (path_resolve root [path_dirname src, d]) home)) = []
                 then ''.''
                 else toExtensionlessPath (toRelativeHref root (sourceOutDir root src home)
                      (computeOutputHtmlPath root (path_resolve root [path_dirname src, d]) home)))
           else toRelativeHref root (sourceOutDir root src home)
                  (path_join [OUTPUT_ROOT root,
                     path_relative root root (path_resolve root [path_dirname src, d])]))
          @ query_of raw @ hash_of raw)"
  by (simp add: processAttr_def is_local_def url_of_def query_of_def hash_of_def Let_def)

lemma processAttr_not_local:
  "\<not> is_local raw \<Longrightarrow> processAttr root src home raw = Inr raw"
  by (auto simp: processAttr_def is_local_def)

lemma processAttr_error:
  "is_local raw \<Longrightarrow> decodeURI (url_of raw) = Inl e \<Longrightarrow> processAttr root src home raw = Inl e"
  by (simp add: processAttr_def is_local_def url_of_def Let_def)





lemma abs_of_append:
  assumes "xs \<noteq> []" "ys \<noteq> []"
  shows "abs_of (xs @ ys) = abs_of xs @ ''/'' @ join_with ''/'' ys"
  using assms by (simp add: abs_of_join join_with_append)

lemma computeOutputHtmlPath_home:
  assumes rs: "list_all normal_seg rs" and h: "normal_seg home"
  shows "computeOutputHtmlPath (abs_of rs) (abs_of (rs @ [home])) home =
         abs_of (rs @ [''_site'', ''index.html''])"
proof -
  have all: "list_all normal_seg (rs @ [home])" using rs h by simp
  have rel: "path_relative (abs_of rs) (abs_of rs) (abs_of (rs @ [home])) = home"
    using path_relative_abs [OF rs all, of "abs_of rs"]
    by (simp add: common_prefix_len_append)
  have bn: "path_basename home = home" by (rule path_basename_single [OF h])
  have dn: "path_dirname home = ''.''"
    using path_dirname_rel [of "[]" home] h by simp
  have o: "list_all normal_seg (rs @ [''_site''])" using rs by simp
  have hm: "path_join [abs_of (rs @ [''_site'']), ''index.html''] = abs_of ((rs @ [''_site'']) @ [''index.html''])"
    by (rule path_join_abs_seg [OF o]) simp
  show ?thesis
    by (simp add: computeOutputHtmlPath_def Let_def rel bn dn OUTPUT_ROOT_abs [OF rs] hm)
qed

lemma toRelativeHref_self:
  assumes "list_all normal_seg zs"
  shows "toRelativeHref root (abs_of zs) (abs_of (zs @ [''index.html''])) = ''index.html''"
proof -
  have t: "list_all normal_seg (zs @ [''index.html''])" using assms by simp
  have "path_relative root (abs_of zs) (abs_of (zs @ [''index.html''])) = ''index.html''"
    using path_relative_abs [OF assms t, of root] by (simp add: common_prefix_len_append)
  then show ?thesis by (simp add: toRelativeHref_def)
qed

lemma toExtensionlessPath_index: "toExtensionlessPath ''index.html'' = []"
  by code_simp

section \<open>Suffixes and the extensionless form\<close>

lemma length_lower [simp]: "length (lower s) = length s"
  by (simp add: lower_def)

lemma lower_append [simp]: "lower (a @ b) = lower a @ lower b"
  by (simp add: lower_def)

lemma ends_with_ci_iff: "ends_with_ci q s \<longleftrightarrow> (\<exists>x y. s = x @ y \<and> lower y = q)"
proof
  assume a: "ends_with_ci q s"
  then have "s = take (length s - length q) s @ drop (length s - length q) s"
    "lower (drop (length s - length q) s) = q"
    by (simp_all add: ends_with_ci_def)
  then show "\<exists>x y. s = x @ y \<and> lower y = q" by blast
next
  assume "\<exists>x y. s = x @ y \<and> lower y = q"
  then obtain x y where xy: "s = x @ y" "lower y = q" by blast
  then have "length q = length y" using length_lower [of y] by simp
  then show "ends_with_ci q s" using xy by (simp add: ends_with_ci_def)
qed

lemma lower_char_sep [simp]: "lower_char CHR ''/'' = CHR ''/''" "lower_char CHR ''.'' = CHR ''.''"
  by (simp_all add: lower_char_def)

lemma ends_with_ci_extend: "ends_with_ci q u \<Longrightarrow> ends_with_ci q (x @ u)"
  by (auto simp: ends_with_ci_iff) (metis append.assoc)

lemma ends_with_ci_sep:
  assumes "ends_with_ci q (X @ CHR ''/'' # u)" "CHR ''/'' \<notin> set q"
  shows "ends_with_ci q u"
proof -
  from assms(1) obtain x y where xy: "X @ CHR ''/'' # u = x @ y" "lower y = q"
    by (auto simp: ends_with_ci_iff)
  have ny: "CHR ''/'' \<notin> set y"
  proof
    assume "CHR ''/'' \<in> set y"
    then have "lower_char CHR ''/'' \<in> lower_char ` set y" by (rule imageI)
    then have "CHR ''/'' \<in> set (lower y)" by (simp add: lower_def)
    then show False using xy(2) assms(2) by simp
  qed
  from xy(1) consider z where "X = x @ z" "y = z @ CHR ''/'' # u"
    | z where "X @ z = x" "CHR ''/'' # u = z @ y"
    by (auto simp: append_eq_append_conv2)
  then show ?thesis
  proof cases
    case 1
    then show ?thesis using ny by simp
  next
    case 2
    show ?thesis
    proof (cases z)
      case Nil
      with 2 ny show ?thesis by auto
    next
      case (Cons c z')
      with 2 have "u = z' @ y" by simp
      with xy(2) show ?thesis by (auto simp: ends_with_ci_iff)
    qed
  qed
qed

lemma ends_with_ci_last:
  assumes "ends_with_ci q s" "q \<noteq> []"
  shows "s \<noteq> [] \<and> lower_char (last s) = last q"
proof -
  from assms(1) obtain x y where xy: "s = x @ y" "lower y = q"
    by (auto simp: ends_with_ci_iff)
  then have y: "y \<noteq> []" using assms(2) by (auto simp: lower_def)
  then have "last (lower y) = lower_char (last y)" by (simp add: lower_def last_map)
  then show ?thesis using xy y by simp
qed

lemma lower_literals [simp]:
  "lower ''.html'' = ''.html''" "lower ''/index.html'' = ''/index.html''"
  "lower ''/index'' = ''/index''" "lower ''.md'' = ''.md''"
  by code_simp+

lemma strip_html_split: "lower y = ''.html'' \<Longrightarrow> strip_html (x @ y) = x"
proof -
  assume l: "lower y = ''.html''"
  then have "length (lower y) = length ''.html''" by simp
  then have n: "length y = 5" by simp
  have "ends_with_ci ''.html'' (x @ y)" using l by (auto simp: ends_with_ci_iff)
  then show ?thesis using n by (simp add: strip_html_def)
qed

lemma strip_html_not_html:
  assumes "\<not> ends_with_ci ''.html.html'' p"
  shows "\<not> ends_with_ci ''.html'' (strip_html p)"
proof (cases "ends_with_ci ''.html'' p")
  case False
  then show ?thesis by (simp add: strip_html_def)
next
  case True
  then obtain x1 y1 where p: "p = x1 @ y1" "lower y1 = ''.html''"
    by (auto simp: ends_with_ci_iff)
  have s: "strip_html p = x1" unfolding p(1) by (rule strip_html_split [OF p(2)])
  show ?thesis
  proof
    assume "ends_with_ci ''.html'' (strip_html p)"
    then obtain x y where xy: "x1 = x @ y" "lower y = ''.html''"
      unfolding s by (auto simp: ends_with_ci_iff)
    have "p = x @ (y @ y1)" using xy(1) p(1) by simp
    moreover have "lower (y @ y1) = ''.html.html''"
      using xy(2) p(2) by simp
    ultimately have "ends_with_ci ''.html.html'' p"
      unfolding ends_with_ci_iff by blast
    with assms show False by simp
  qed
qed

lemma strip_index_slash:
  assumes "p \<noteq> []"
  shows "strip_index (p @ ''/index.html'') = p"
proof -
  have a: "lower (p @ ''/index.html'') \<noteq> ''index''"
  proof
    assume "lower (p @ ''/index.html'') = ''index''"
    then have "length (lower (p @ ''/index.html'')) = length ''index''" by simp
    then show False by simp
  qed
  have b: "lower (p @ ''/index.html'') \<noteq> ''index.html''"
  proof
    assume "lower (p @ ''/index.html'') = ''index.html''"
    then have "length (lower (p @ ''/index.html'')) = length ''index.html''" by simp
    then show False by simp
  qed
  have e: "ends_with_ci ''/index.html'' (p @ ''/index.html'')"
    unfolding ends_with_ci_iff
    by (rule exI [of _ p], rule exI [of _ "''/index.html''"]) simp
  show ?thesis using a b e by (simp add: strip_index_def)
qed

lemma strip_unchanged_dot:
  assumes "s \<noteq> []" "last s = CHR ''.''"
  shows "toExtensionlessPath s = s" "\<not> ends_with_ci ''.html'' s"
proof -
  have n: "\<not> ends_with_ci q s" if "q \<noteq> []" "last q \<noteq> CHR ''.''" for q
    using ends_with_ci_last [of q s] that assms by auto
  have a: "lower s \<noteq> ''index''" "lower s \<noteq> ''index.html''"
  proof -
    have "last (lower s) = CHR ''.''" using assms by (simp add: lower_def last_map)
    then show "lower s \<noteq> ''index''" "lower s \<noteq> ''index.html''" by auto
  qed
  show "\<not> ends_with_ci ''.html'' s" by (rule n) simp_all
  have "\<not> ends_with_ci ''/index.html'' s" "\<not> ends_with_ci ''/index'' s" "\<not> ends_with_ci ''.html'' s"
    by (rule n; simp)+
  then show "toExtensionlessPath s = s"
    using a by (simp add: toExtensionlessPath_def strip_index_def strip_html_def)
qed

lemma last_join_with:
  assumes "xs \<noteq> []" "last xs \<noteq> []"
  shows "join_with s xs \<noteq> [] \<and> last (join_with s xs) = last (last xs)"
proof -
  obtain ys x where xs: "xs = ys @ [x]" using assms(1) by (metis rev_exhaust)
  then have x: "x \<noteq> []" using assms(2) by simp
  show ?thesis
  proof (cases "ys = []")
    case True
    with xs x show ?thesis by simp
  next
    case False
    then show ?thesis unfolding xs using x by (simp add: join_with_snoc)
  qed
qed

lemma join_ups:
  assumes "0 < k"
  shows "join_with ''/'' (replicate k ''..'') \<noteq> [] \<and> last (join_with ''/'' (replicate k ''..'')) = CHR ''.''"
proof -
  have "replicate k ''..'' \<noteq> []" using assms by simp
  moreover have "last (replicate k ''..'') = ''..''" using assms by simp
  ultimately show ?thesis using last_join_with [of "replicate k ''..''" "''/''"] by simp
qed

lemma abs_of_snoc: "abs_of (xs @ [x]) = (if xs = [] then [] else abs_of xs) @ CHR ''/'' # x"
  by (simp add: abs_of_def)

lemma not_html_dot: "\<not> ends_with_ci ''.html'' ''.''"
  by (simp add: ends_with_ci_def)

lemma md_href_not_html:
  assumes ss: "list_all normal_seg ss" and us: "list_all normal_seg us"
    and H: "\<not> ends_with_ci ''.html.html'' (abs_of us)"
  shows "\<not> ends_with_ci ''.html''
           (if toExtensionlessPath (toRelativeHref root (abs_of ss) (abs_of (us @ [''index.html'']))) = []
            then ''.''
            else toExtensionlessPath (toRelativeHref root (abs_of ss) (abs_of (us @ [''index.html'']))))"
proof -
  define n where "n = common_prefix_len ss (us @ [''index.html''])"
  define k where "k = length ss - n"
  define r where "r = join_with ''/'' (replicate k ''..'' @ drop n (us @ [''index.html'']))"
  define e where "e = toExtensionlessPath (if r = [] then ''index.html'' else r)"
  have t: "list_all normal_seg (us @ [''index.html''])" using us by simp
  have rel: "path_relative root (abs_of ss) (abs_of (us @ [''index.html''])) = r"
    unfolding r_def k_def n_def by (rule path_relative_abs [OF ss t])
  have href: "toRelativeHref root (abs_of ss) (abs_of (us @ [''index.html''])) =
              (if r = [] then ''index.html'' else r)"
    by (simp add: toRelativeHref_def rel join_split [of "CHR ''/''", simplified])
  have goal: "\<not> ends_with_ci ''.html'' (if e = [] then ''.'' else e)"
  proof (cases "r = []")
    case True
    then have "e = []" by (simp add: e_def toExtensionlessPath_index)
    then show ?thesis by (simp add: not_html_dot)
  next
    case False
    then have er: "e = toExtensionlessPath r" by (simp add: e_def)
    have nle: "n \<le> length us + 1"
      using common_prefix_len_le [of ss "us @ [''index.html'']"] by (simp add: n_def)
    show ?thesis
    proof (cases "n \<le> length us")
      case beyond: False
      then have "drop n (us @ [''index.html'']) = []" by simp
      then have r1: "r = join_with ''/'' (replicate k ''..'')" by (simp add: r_def)
      with False have "0 < k" by (cases k) auto
      from join_ups [OF this] r1 have "r \<noteq> []" "last r = CHR ''.''" by simp_all
      from strip_unchanged_dot [OF this] er False show ?thesis by simp
    next
      case True
      define pre where "pre = replicate k ''..'' @ drop n us"
      have r2: "r = join_with ''/'' (pre @ [''index.html''])"
        using True by (simp add: r_def pre_def)
      show ?thesis
      proof (cases "pre = []")
        case True
        then have "r = ''index.html''" by (simp add: r2)
        then have "e = []" by (simp add: er toExtensionlessPath_index)
        then show ?thesis by (simp add: not_html_dot)
      next
        case pne: False
        have r3: "r = join_with ''/'' pre @ ''/index.html''"
          using pne by (simp add: r2 join_with_snoc)
        have lastpre: "last pre \<noteq> []"
        proof (cases "drop n us = []")
          case True
          with pne have "0 < k" by (cases k) (auto simp: pre_def)
          then show ?thesis using True by (simp add: pre_def)
        next
          case False
          then have "last pre = last us" by (simp add: pre_def)
          moreover have "last us \<in> set us" using False by (cases us) auto
          ultimately show ?thesis using us by (auto simp: list_all_iff normal_seg_def)
        qed
        have jne: "join_with ''/'' pre \<noteq> []"
          using last_join_with [OF pne lastpre] by simp
        have e2: "e = strip_html (join_with ''/'' pre)"
          unfolding er r3 toExtensionlessPath_def by (simp only: strip_index_slash [OF jne])
        show ?thesis
        proof (cases "drop n us = []")
          case True
          with pne have "0 < k" by (cases k) (auto simp: pre_def)
          from join_ups [OF this] True
          have d: "join_with ''/'' pre \<noteq> []" "last (join_with ''/'' pre) = CHR ''.''"
            by (simp_all add: pre_def)
          from strip_unchanged_dot(2) [OF d] have "e = join_with ''/'' pre"
            by (simp add: e2 strip_html_def)
          with strip_unchanged_dot(2) [OF d] d(1) show ?thesis by simp
        next
          case False
          then have une: "us \<noteq> []" by auto
          define u where "u = last us"
          have lp: "last pre = u" using False by (simp add: pre_def u_def)
          obtain pre' where pre': "pre = pre' @ [u]"
            using pne lp by (metis append_butlast_last_id)
          have nh: "\<not> ends_with_ci ''.html.html'' (join_with ''/'' pre)"
          proof
            assume a: "ends_with_ci ''.html.html'' (join_with ''/'' pre)"
            have "ends_with_ci ''.html.html'' u"
            proof (cases "pre' = []")
              case True
              with a pre' show ?thesis by simp
            next
              case False
              then have "join_with ''/'' pre = join_with ''/'' pre' @ CHR ''/'' # u"
                by (simp add: pre' join_with_snoc)
              with a show ?thesis using ends_with_ci_sep [of "''.html.html''" "join_with ''/'' pre'" u]
                by simp
            qed
            moreover have "abs_of us = (if butlast us = [] then [] else abs_of (butlast us)) @ CHR ''/'' # u"
              using abs_of_snoc [of "butlast us" u] une by (simp add: u_def)
            ultimately have "ends_with_ci ''.html.html'' (abs_of us)"
              using ends_with_ci_extend [of "''.html.html''" "CHR ''/'' # u"]
                ends_with_ci_extend [of "''.html.html''" u "[CHR ''/'']"] by simp
            with H show False by simp
          qed
          from strip_html_not_html [OF nh] have "\<not> ends_with_ci ''.html'' e" by (simp add: e2)
          then show ?thesis by (simp add: not_html_dot)
        qed
      qed
    qed
  qed
  show ?thesis using goal unfolding e_def href [symmetric] .
qed

lemma literal_html_suffix: "h = p @ ''.html'' \<Longrightarrow> ends_with_ci ''.html'' h"
  unfolding ends_with_ci_iff
  by (rule exI [of _ p], rule exI [of _ "''.html''"]) simp




section \<open>Claims\<close>




text \<open>
  C2 (as amended). The home document, when it lies in the content root itself, is
  written to \<open>index.html\<close> in the output root.
\<close>

theorem home_at_root_is_index:
  assumes "clean_abs root" "normal_seg home"
  shows "computeOutputHtmlPath root (path_join [root, home]) home
           = path_join [OUTPUT_ROOT root, ''index.html'']
         \<and> path_join [OUTPUT_ROOT root, ''index.html''] = OUTPUT_ROOT root @ ''/index.html''"
proof -
  obtain rs where rs: "list_all normal_seg rs" "root = abs_of rs"
    using assms(1) clean_abs_iff by blast
  have src: "path_join [root, home] = abs_of (rs @ [home])"
    unfolding rs(2) by (rule path_join_abs_seg [OF rs(1) assms(2)])
  have o: "list_all normal_seg (rs @ [''_site''])" using rs by simp
  have hm: "path_join [abs_of (rs @ [''_site'']), ''index.html''] = abs_of ((rs @ [''_site'']) @ [''index.html''])"
    by (rule path_join_abs_seg [OF o]) simp
  have ap: "abs_of ((rs @ [''_site'']) @ [''index.html'']) = abs_of (rs @ [''_site'']) @ ''/'' @ join_with ''/'' [''index.html'']"
    by (rule abs_of_append) simp_all
  show ?thesis
    unfolding src
    using computeOutputHtmlPath_home [OF rs(1) assms(2)] hm ap
    by (simp add: rs(2) OUTPUT_ROOT_abs [OF rs(1)])
qed

theorem home_at_root_is_index_witness:
  "clean_abs ''/repo'' \<and> normal_seg ''README.md'' \<and>
   path_join [''/repo'', ''README.md''] = ''/repo/README.md'' \<and>
   computeOutputHtmlPath ''/repo'' ''/repo/README.md'' ''README.md'' = ''/repo/_site/index.html''"
proof -
  have c: "clean_abs ''/repo''" by code_simp
  have b: "normal_seg ''README.md''" by code_simp
  have p: "path_join [''/repo'', ''README.md''] = ''/repo/README.md''" by code_simp
  have r: "path_join [OUTPUT_ROOT ''/repo'', ''index.html''] = ''/repo/_site/index.html''"
    by code_simp
  note t = home_at_root_is_index [OF c b, THEN conjunct1]
  from t [unfolded p r] c b p show ?thesis by blast
qed

text \<open>
  C2 as stated fails for a home document in a directory: with \<open>home_md\<close> set to
  \<open>docs/home.md\<close> the base name of the home document is \<open>home.md\<close>, and the document
  is written to \<open>docs/home/index.html\<close>, as any other document in \<open>docs\<close> is.
\<close>

theorem home_in_directory_not_root:
  "path_basename ''docs/home.md'' = ''home.md'' \<and>
   computeOutputHtmlPath ''/repo'' (path_join [''/repo'', ''docs/home.md'']) ''home.md''
     = ''/repo/_site/docs/home/index.html''"
  by code_simp




text \<open>
  C4 (as amended). Rewriting a reference fails only in \<open>decodeURI\<close>: for every reference
  whose path part \<open>decodeURI\<close> accepts, whatever the source document and wherever the
  reference resolves to, inside the content root or outside of it, \<open>processAttr\<close>
  returns a value.
\<close>

theorem processAttr_total:
  "decodeURI (url_of raw) = Inr d \<Longrightarrow> \<exists>r. processAttr root src home raw = Inr r"
  by (cases "is_local raw") (simp_all add: processAttr_local processAttr_not_local)

theorem processAttr_total_witness:
  "decodeURI (url_of ''../other/x.png'') = Inr ''../other/x.png'' \<and>
   (\<exists>r. processAttr ''/repo'' ''/repo/README.md'' ''README.md'' ''../other/x.png'' = Inr r) \<and>
   processAttr ''/repo'' ''/repo/README.md'' ''README.md'' ''../other/x.png''
     = Inr ''../other/x.png''"
proof -
  have d: "decodeURI (url_of ''../other/x.png'') = Inr ''../other/x.png''"
    by code_simp
  have v: "processAttr ''/repo'' ''/repo/README.md'' ''README.md'' ''../other/x.png''
             = Inr ''../other/x.png''"
    by code_simp
  from processAttr_total [OF d] d v show ?thesis by blast
qed

text \<open>
  C4 as stated fails: a reference with a malformed percent-escape, here a percent sign
  with nothing behind it, makes \<open>decodeURI\<close> throw, and \<open>processAttr\<close> with it. And a
  reference that resolves outside the content root need not come back with \<open>..\<close>
  segments: from \<open>README.md\<close> the reference \<open>../_site/x.png\<close> names a file beside the
  content root and is rewritten to \<open>x.png\<close>.
\<close>

theorem processAttr_malformed_escape:
  "processAttr ''/repo'' ''/repo/README.md'' ''README.md'' ''100%'' = Inl URIError \<and>
   path_resolve ''/repo'' [path_dirname ''/repo/README.md'', ''../_site/x.png''] = ''/_site/x.png'' \<and>
   processAttr ''/repo'' ''/repo/README.md'' ''README.md'' ''../_site/x.png'' = Inr ''x.png''"
  by code_simp

text \<open>
  C5 (as amended). A reference that starts, in any letter case, with \<open>http://\<close>,
  \<open>https://\<close>, \<open>//\<close>, \<open>mailto:\<close> or \<open>tel:\<close>, or that starts with \<open>#\<close>, is returned
  as it is.
\<close>

theorem external_untouched:
  assumes "(lower p \<in> {''http://'', ''https://'', ''//'', ''mailto:'', ''tel:''} \<and> raw = p @ rest)
           \<or> raw = CHR ''#'' # rest"
  shows "processAttr root src home raw = Inr raw"
proof -
  have pre: "starts_with_ci (lower p) (p @ rest)"
    by (simp add: starts_with_ci_def lower_def)
  from assms have "is_absolute_url raw \<or> is_mail_or_tel raw \<or> starts_with_hash raw"
  proof
    assume a: "lower p \<in> {''http://'', ''https://'', ''//'', ''mailto:'', ''tel:''} \<and> raw = p @ rest"
    then have "starts_with_ci (lower p) raw" using pre by simp
    with a show ?thesis
      by (auto simp: is_absolute_url_def is_mail_or_tel_def)
  next
    assume "raw = CHR ''#'' # rest"
    then show ?thesis by (simp add: starts_with_hash_def)
  qed
  then have "\<not> is_local raw" by (auto simp: is_local_def)
  then show ?thesis by (rule processAttr_not_local)
qed

theorem external_untouched_witness:
  "((lower ''HTTPS://'' \<in> {''http://'', ''https://'', ''//'', ''mailto:'', ''tel:''}
      \<and> ''HTTPS://example.com/a.md'' = ''HTTPS://'' @ ''example.com/a.md'')
     \<or> ''HTTPS://example.com/a.md'' = CHR ''#'' # ''example.com/a.md'') \<and>
   processAttr ''/repo'' ''/repo/README.md'' ''README.md'' ''HTTPS://example.com/a.md''
     = Inr ''HTTPS://example.com/a.md''"
proof -
  have l: "lower ''HTTPS://'' = ''https://''" by code_simp
  have h: "(lower ''HTTPS://'' \<in> {''http://'', ''https://'', ''//'', ''mailto:'', ''tel:''}
      \<and> ''HTTPS://example.com/a.md'' = ''HTTPS://'' @ ''example.com/a.md'')
     \<or> ''HTTPS://example.com/a.md'' = CHR ''#'' # ''example.com/a.md''"
    by (simp add: l)
  from external_untouched [OF h] h show ?thesis by blast
qed

text \<open>
  C5 as stated fails for a scheme other than \<open>http\<close> and \<open>https\<close>: a reference
  \<open>ftp://...\<close> is taken for a local path, resolved and rewritten.
\<close>

theorem ftp_reference_rewritten:
  "processAttr ''/repo'' ''/repo/README.md'' ''README.md'' ''ftp://example.com/x''
     = Inr ''ftp:/example.com/x''"
  by code_simp

text \<open>
  C6 (as amended). A local reference whose path part ends in the Markdown extension is
  rewritten to the relative path to the output location of its target, without the
  trailing \<open>index.html\<close> and without a trailing \<open>.html\<close>, or to \<open>.\<close> when nothing is
  left. Unless the directory of that output location ends in \<open>.html.html\<close> (the name of
  the target, without the Markdown extension, does), the rewritten path is not empty and
  does not end in \<open>.html\<close>, so not in \<open>index.html\<close> either. A local reference to
  anything else is rewritten to the relative path to its mirrored location as it is,
  with its extension.
\<close>

theorem extensionless_links:
  assumes "clean_abs root" "is_local raw" "decodeURI (url_of raw) = Inr d"
  shows "(is_md (url_of raw)
          \<and> \<not> ends_with_ci ''.html.html''
                (path_dirname (computeOutputHtmlPath root
                   (path_resolve root [path_dirname src, d]) home))
          \<longrightarrow> (\<exists>h. processAttr root src home raw = Inr (h @ query_of raw @ hash_of raw)
                   \<and> h = (if toExtensionlessPath (toRelativeHref root (sourceOutDir root src home)
                                (computeOutputHtmlPath root
                                   (path_resolve root [path_dirname src, d]) home)) = []
                          then ''.''
                          else toExtensionlessPath (toRelativeHref root (sourceOutDir root src home)
                                (computeOutputHtmlPath root
                                   (path_resolve root [path_dirname src, d]) home)))
                   \<and> h \<noteq> [] \<and> \<not> ends_with_ci ''.html'' h \<and> (\<nexists>p. h = p @ ''.html'')))
       \<and> (\<not> is_md (url_of raw)
          \<longrightarrow> processAttr root src home raw =
                Inr (toRelativeHref root (sourceOutDir root src home)
                       (path_join [OUTPUT_ROOT root,
                          path_relative root root (path_resolve root [path_dirname src, d])])
                     @ query_of raw @ hash_of raw))"
proof (intro conjI impI)
  assume "\<not> is_md (url_of raw)"
  then show "processAttr root src home raw =
                Inr (toRelativeHref root (sourceOutDir root src home)
                       (path_join [OUTPUT_ROOT root,
                          path_relative root root (path_resolve root [path_dirname src, d])])
                     @ query_of raw @ hash_of raw)"
    using processAttr_local [OF assms(2,3)] by simp
next
  let ?T = "computeOutputHtmlPath root (path_resolve root [path_dirname src, d]) home"
  let ?e = "toExtensionlessPath (toRelativeHref root (sourceOutDir root src home) ?T)"
  let ?h = "if ?e = [] then ''.'' else ?e"
  assume a: "is_md (url_of raw) \<and> \<not> ends_with_ci ''.html.html'' (path_dirname ?T)"
  obtain rs where rs: "list_all normal_seg rs" "root = abs_of rs"
    using assms(1) clean_abs_iff by blast
  obtain ss where ss: "list_all normal_seg ss" "sourceOutDir root src home = abs_of ss"
    using sourceOutDir_shape [OF rs(1), of src home] rs(2) by blast
  obtain us where us: "list_all normal_seg us" "?T = abs_of (us @ [''index.html''])"
    using computeOutputHtmlPath_shape [OF rs(1)] rs(2) by blast
  have dn: "path_dirname ?T = abs_of us"
    unfolding us(2) by (rule path_dirname_abs [OF us(1)]) simp
  have H: "\<not> ends_with_ci ''.html.html'' (abs_of us)" using a dn by simp
  have nh: "\<not> ends_with_ci ''.html'' ?h"
    unfolding ss(2) us(2) by (rule md_href_not_html [OF ss(1) us(1) H])
  have p: "processAttr root src home raw = Inr (?h @ query_of raw @ hash_of raw)"
    using processAttr_local [OF assms(2,3), of root src home] a by simp
  have ne: "?h \<noteq> []" by simp
  have lit: "\<nexists>p. ?h = p @ ''.html''" using nh literal_html_suffix by blast
  show "\<exists>h. processAttr root src home raw = Inr (h @ query_of raw @ hash_of raw)
          \<and> h = ?h \<and> h \<noteq> [] \<and> \<not> ends_with_ci ''.html'' h \<and> (\<nexists>p. h = p @ ''.html'')"
    using p ne nh lit by blast
qed

theorem extensionless_links_witness:
  "clean_abs ''/repo'' \<and> is_local ''intro.md#top'' \<and>
   decodeURI (url_of ''intro.md#top'') = Inr ''intro.md'' \<and> is_md (url_of ''intro.md#top'') \<and>
   \<not> ends_with_ci ''.html.html''
       (path_dirname (computeOutputHtmlPath ''/repo''
          (path_resolve ''/repo'' [path_dirname ''/repo/docs/guide.md'', ''intro.md'']) ''README.md'')) \<and>
   processAttr ''/repo'' ''/repo/docs/guide.md'' ''README.md'' ''intro.md#top'' = Inr ''../intro#top'' \<and>
   \<not> ends_with_ci ''.html'' ''../intro'' \<and>
   is_local ''page.html'' \<and> decodeURI (url_of ''page.html'') = Inr ''page.html'' \<and>
   \<not> is_md (url_of ''page.html'') \<and>
   processAttr ''/repo'' ''/repo/docs/guide.md'' ''README.md'' ''page.html'' = Inr ''../page.html''"
proof -
  have c: "clean_abs ''/repo''" by code_simp
  have l: "is_local ''intro.md#top''" by code_simp
  have d: "decodeURI (url_of ''intro.md#top'') = Inr ''intro.md''" by code_simp
  have m: "is_md (url_of ''intro.md#top'')" by code_simp
  have n: "\<not> ends_with_ci ''.html.html''
       (path_dirname (computeOutputHtmlPath ''/repo''
          (path_resolve ''/repo'' [path_dirname ''/repo/docs/guide.md'', ''intro.md'']) ''README.md''))"
    by code_simp
  have q: "query_of ''intro.md#top'' = []" "hash_of ''intro.md#top'' = ''#top''" by code_simp+
  have v: "(if toExtensionlessPath (toRelativeHref ''/repo''
                 (sourceOutDir ''/repo'' ''/repo/docs/guide.md'' ''README.md'')
                 (computeOutputHtmlPath ''/repo''
                    (path_resolve ''/repo'' [path_dirname ''/repo/docs/guide.md'', ''intro.md''])
                    ''README.md'')) = []
            then ''.''
            else toExtensionlessPath (toRelativeHref ''/repo''
                 (sourceOutDir ''/repo'' ''/repo/docs/guide.md'' ''README.md'')
                 (computeOutputHtmlPath ''/repo''
                    (path_resolve ''/repo'' [path_dirname ''/repo/docs/guide.md'', ''intro.md''])
                    ''README.md''))) = ''../intro''"
    by code_simp
  note t = extensionless_links [OF c l d, of "''/repo/docs/guide.md''" "''README.md''", THEN conjunct1, rule_format, OF conjI [OF m n]]
  from t [unfolded v q] have a: "processAttr ''/repo'' ''/repo/docs/guide.md'' ''README.md'' ''intro.md#top''
      = Inr ''../intro#top'' \<and> \<not> ends_with_ci ''.html'' ''../intro''"
    by auto
  have l2: "is_local ''page.html''" by code_simp
  have d2: "decodeURI (url_of ''page.html'') = Inr ''page.html''" by code_simp
  have m2: "\<not> is_md (url_of ''page.html'')" by code_simp
  have v2: "toRelativeHref ''/repo'' (sourceOutDir ''/repo'' ''/repo/docs/guide.md'' ''README.md'')
              (path_join [OUTPUT_ROOT ''/repo'',
                 path_relative ''/repo'' ''/repo''
                   (path_resolve ''/repo'' [path_dirname ''/repo/docs/guide.md'', ''page.html''])])
            @ query_of ''page.html'' @ hash_of ''page.html'' = ''../page.html''"
    by code_simp
  note t2 = extensionless_links [OF c l2 d2, of "''/repo/docs/guide.md''" "''README.md''", THEN conjunct2, rule_format, OF m2]
  from t2 [unfolded v2] a c l d m n l2 d2 m2 show ?thesis by blast
qed

text \<open>
  C6 as stated fails for a document whose name ends in \<open>.html.html\<close> before the Markdown
  extension: only one \<open>.html\<close> is removed from the name of its directory.
\<close>

theorem stacked_html_suffix_kept:
  "is_local ''notes.html.html.md'' \<and> is_md (url_of ''notes.html.html.md'') \<and>
   processAttr ''/repo'' ''/repo/README.md'' ''README.md'' ''notes.html.html.md''
     = Inr ''notes.html''"
  by code_simp





text \<open>
  C9 (as amended). When the frontmatter block of a document is YAML that the loader
  rejects, \<open>parseYamlFrontmatter\<close> does not fail: it returns no attributes and, for the
  body, the text behind the block, and the title and the description of the page fall
  back to the first heading of the body or the title of the site.
\<close>

theorem malformed_frontmatter_ignored:
  assumes "match_frontmatter md = Some (block, len)" "yaml_load block = None"
  shows "parseYamlFrontmatter yaml_load md = \<lparr>attributes = YMapping [], body = drop len md\<rparr>
         \<and> pageMeta site_title (parseYamlFrontmatter yaml_load md) k
             = pageFallback site_title (drop len md)"
  using assms by (simp add: parseYamlFrontmatter_def pageMeta_def string_attr_def)

theorem malformed_frontmatter_ignored_witness:
  "match_frontmatter (''---'' @ [CHR 0x0A] @ ''title: ['' @ [CHR 0x0A] @ ''---'' @ [CHR 0x0A] @ ''# T'')
     = Some (''title: ['', 17) \<and>
   demo_yaml_load ''title: ['' = None \<and>
   parseYamlFrontmatter demo_yaml_load
       (''---'' @ [CHR 0x0A] @ ''title: ['' @ [CHR 0x0A] @ ''---'' @ [CHR 0x0A] @ ''# T'')
     = \<lparr>attributes = YMapping [], body = ''# T''\<rparr> \<and>
   pageMeta ''Site''
       (parseYamlFrontmatter demo_yaml_load
          (''---'' @ [CHR 0x0A] @ ''title: ['' @ [CHR 0x0A] @ ''---'' @ [CHR 0x0A] @ ''# T''))
       ''title''
     = ''T''"
proof -
  let ?md = "''---'' @ [CHR 0x0A] @ ''title: ['' @ [CHR 0x0A] @ ''---'' @ [CHR 0x0A] @ ''# T''"
  have m: "match_frontmatter ?md = Some (''title: ['', 17)" by code_simp
  have y: "demo_yaml_load ''title: ['' = None" by (simp add: demo_yaml_load_def)
  have d: "drop 17 ?md = ''# T''" by simp
  have f: "pageFallback ''Site'' ''# T'' = ''T''" by code_simp
  note t = malformed_frontmatter_ignored
         [where yaml_load = demo_yaml_load and site_title = "''Site''" and k = "''title''", OF m y]
  from t [unfolded d f] m y show ?thesis by blast
qed

text \<open>
  C9 as stated fails: a document whose frontmatter the loader rejects is not an error.
  \<open>parseYamlFrontmatter\<close> catches the exception of the loader and goes on without
  attributes, and the page gets the title of its first heading.
\<close>

theorem malformed_frontmatter_no_error:
  "demo_yaml_load ''title: ['' = None \<and>
   parseYamlFrontmatter demo_yaml_load
       (''---'' @ [CHR 0x0A] @ ''title: ['' @ [CHR 0x0A] @ ''---'' @ [CHR 0x0A]
          @ ''# Guide'' @ [CHR 0x0A] @ ''text'')
     = \<lparr>attributes = YMapping [], body = ''# Guide'' @ [CHR 0x0A] @ ''text''\<rparr> \<and>
   pageMeta ''Site''
       (parseYamlFrontmatter demo_yaml_load
          (''---'' @ [CHR 0x0A] @ ''title: ['' @ [CHR 0x0A] @ ''---'' @ [CHR 0x0A]
             @ ''# Guide'' @ [CHR 0x0A] @ ''text''))
       ''title''
     = ''Guide''"
  by code_simp

text \<open>
  C10. On the page that an internal entry of the navigation points to, where the output
  directory of the page is the directory of the output location of the entry, the
  relative path to the entry is \<open>index.html\<close> and the \<open>href\<close> of its link is the empty
  string; the link of the title of the site, on the home page, gets \<open>.\<close> instead.
\<close>

theorem nav_self_link:
  assumes "clean_abs root"
  shows "toRelativeHref root (path_dirname (computeOutputHtmlPath root mdPath home))
           (computeOutputHtmlPath root mdPath home) = ''index.html''
         \<and> navItemHref root (path_dirname (computeOutputHtmlPath root mdPath home))
             (Internal mdPath title (computeOutputHtmlPath root mdPath home)) = []
         \<and> homeHref root (path_dirname (computeOutputHtmlPath root homePath home))
             (computeOutputHtmlPath root homePath home) = ''.''"
proof -
  obtain rs where rs: "list_all normal_seg rs" "root = abs_of rs"
    using assms(1) clean_abs_iff by blast
  have self: "toRelativeHref root (path_dirname (computeOutputHtmlPath root p home))
           (computeOutputHtmlPath root p home) = ''index.html''" for p
  proof -
    obtain zs where zs: "list_all normal_seg zs"
      "computeOutputHtmlPath root p home = abs_of (zs @ [''index.html''])"
      using computeOutputHtmlPath_shape [OF rs(1), of p home] rs(2) by blast
    show ?thesis
      unfolding zs(2) by (simp add: path_dirname_abs [OF zs(1)] toRelativeHref_self [OF zs(1)])
  qed
  show ?thesis
    by (simp add: navItemHref_def homeHref_def self toExtensionlessPath_index)
qed

theorem nav_self_link_witness:
  "clean_abs ''/repo'' \<and>
   computeOutputHtmlPath ''/repo'' ''/repo/docs/guide.md'' ''README.md''
     = ''/repo/_site/docs/guide/index.html'' \<and>
   navItemHref ''/repo'' ''/repo/_site/docs/guide''
     (Internal ''/repo/docs/guide.md'' ''Guide'' ''/repo/_site/docs/guide/index.html'') = [] \<and>
   homeHref ''/repo'' ''/repo/_site'' ''/repo/_site/index.html'' = ''.''"
proof -
  have c: "clean_abs ''/repo''" by code_simp
  have o: "computeOutputHtmlPath ''/repo'' ''/repo/docs/guide.md'' ''README.md''
     = ''/repo/_site/docs/guide/index.html''" by code_simp
  have h: "computeOutputHtmlPath ''/repo'' ''/repo/README.md'' ''README.md''
     = ''/repo/_site/index.html''" by code_simp
  have d: "path_dirname ''/repo/_site/docs/guide/index.html'' = ''/repo/_site/docs/guide''"
    "path_dirname ''/repo/_site/index.html'' = ''/repo/_site''" by code_simp+
  note t = nav_self_link [OF c, of "''/repo/docs/guide.md''" "''README.md''" "''Guide''" "''/repo/README.md''"]
  from t [unfolded o h d] c o show ?thesis by blast
qed

end
